theory Spec2Isabelle
  imports Main "HOL-Library.Multiset"
begin

section \<open>Data model\<close>

text \<open>
  The program is a Python script (\<^verbatim>\<open>app.py\<close>). A grid is a list of rows of one-character
  cells: \<^verbatim>\<open>'.'\<close> open, \<^verbatim>\<open>'#'\<close> wall, \<^verbatim>\<open>'I'\<close> ice seed. A freeze-time matrix holds Python
  integers or \<^verbatim>\<open>math.inf\<close>. Reading a list out of range raises \<^verbatim>\<open>IndexError\<close>, which the
  model returns as a value.
\<close>

datatype error = IndexError

datatype pynum = PInt int | PInf

type_synonym grid = "char list list"
type_synonym ice = "pynum list list"
type_synonym entry = "int \<times> int \<times> int"

text \<open>The four comparisons the script makes between an integer and a freeze time.\<close>

fun num_gt :: "pynum \<Rightarrow> int \<Rightarrow> bool" where
  "num_gt (PInt m) x = (x < m)"
| "num_gt PInf x = True"

fun int_lt :: "int \<Rightarrow> pynum \<Rightarrow> bool" where
  "int_lt x (PInt m) = (x < m)"
| "int_lt x PInf = True"

fun int_ge :: "int \<Rightarrow> pynum \<Rightarrow> bool" where
  "int_ge x (PInt m) = (m \<le> x)"
| "int_ge x PInf = False"

fun num_le :: "pynum \<Rightarrow> int \<Rightarrow> bool" where
  "num_le (PInt m) x = (m \<le> x)"
| "num_le PInf x = False"

text \<open>\<^verbatim>\<open>m[r][c]\<close> and \<^verbatim>\<open>m[r][c] = v\<close> for indices that are already known to be non-negative.\<close>

definition get2 :: "'a list list \<Rightarrow> nat \<Rightarrow> nat \<Rightarrow> error + 'a" where
  "get2 m r c = (if r < length m \<and> c < length (m ! r) then Inr (m ! r ! c) else Inl IndexError)"

definition set2 :: "'a list list \<Rightarrow> nat \<Rightarrow> nat \<Rightarrow> 'a \<Rightarrow> error + 'a list list" where
  "set2 m r c v =
     (if r < length m \<and> c < length (m ! r) then Inr (m[r := (m ! r)[c := v]]) else Inl IndexError)"

text \<open>\<^verbatim>\<open>R, C = len(grid), len(grid[0])\<close>\<close>

definition dims :: "'a list list \<Rightarrow> error + (nat \<times> nat)" where
  "dims m = (case m of [] \<Rightarrow> Inl IndexError | row # _ \<Rightarrow> Inr (length m, length row))"

definition directions :: "(int \<times> int) list" where
  "directions = [(-1, 0), (1, 0), (0, -1), (0, 1)]"

section \<open>The reachability search: \<^verbatim>\<open>find_shortest_safe_steps\<close>\<close>

text \<open>One pass of the body of the \<^verbatim>\<open>for dr, dc in ...\<close> loop (source lines 83 to 89).\<close>

fun try_visit ::
  "grid \<Rightarrow> ice \<Rightarrow> nat \<Rightarrow> nat \<Rightarrow> entry \<Rightarrow> int \<times> int \<Rightarrow> bool list list \<times> entry list
     \<Rightarrow> error + (bool list list \<times> entry list)" where
  "try_visit G I R C (r, c, steps) (dr, dc) (visited, q) =
     (let nr = r + dr; nc = c + dc in
      if 0 \<le> nr \<and> nr < int R \<and> 0 \<le> nc \<and> nc < int C then
        (case get2 visited (nat nr) (nat nc) of
           Inl e \<Rightarrow> Inl e
         | Inr seen \<Rightarrow>
             if \<not> seen then
               (case get2 G (nat nr) (nat nc) of
                  Inl e \<Rightarrow> Inl e
                | Inr ch \<Rightarrow>
                    if ch \<noteq> CHR ''#'' then
                      (case get2 I (nat nr) (nat nc) of
                         Inl e \<Rightarrow> Inl e
                       | Inr t \<Rightarrow>
                           if int_lt (steps + 1) t then
                             (case set2 visited (nat nr) (nat nc) True of
                                Inl e \<Rightarrow> Inl e
                              | Inr visited' \<Rightarrow> Inr (visited', q @ [(nr, nc, steps + 1)]))
                           else Inr (visited, q))
                    else Inr (visited, q))
             else Inr (visited, q))
      else Inr (visited, q))"

fun visit_all ::
  "grid \<Rightarrow> ice \<Rightarrow> nat \<Rightarrow> nat \<Rightarrow> entry \<Rightarrow> (int \<times> int) list \<Rightarrow> bool list list \<times> entry list
     \<Rightarrow> error + (bool list list \<times> entry list)" where
  "visit_all G I R C cur [] s = Inr s"
| "visit_all G I R C cur (d # ds) s =
     (case try_visit G I R C cur d s of
        Inl e \<Rightarrow> Inl e
      | Inr s' \<Rightarrow> visit_all G I R C cur ds s')"

definition unvisited :: "bool list list \<Rightarrow> nat" where
  "unvisited visited = sum_list (map (\<lambda>row. length (filter Not row)) visited)"

lemma unvisited_row:
  "c < length row \<Longrightarrow> \<not> row ! c \<Longrightarrow>
     length (filter Not row) = Suc (length (filter Not (row[c := True])))"
proof -
  assume c: "c < length row" and f: "\<not> row ! c"
  have "row = take c row @ row ! c # drop (Suc c) row"
    using c by (simp add: id_take_nth_drop)
  then have "length (filter Not row) =
      length (filter Not (take c row @ row ! c # drop (Suc c) row))" by simp
  moreover have "row[c := True] = take c row @ True # drop (Suc c) row"
    using c by (simp add: upd_conv_take_nth_drop)
  ultimately show ?thesis using f by simp
qed

lemma unvisited_set2:
  assumes "get2 visited r c = Inr False" and "set2 visited r c True = Inr visited'"
  shows "unvisited visited = Suc (unvisited visited')"
proof -
  from assms(1) have r: "r < length visited" and c: "c < length (visited ! r)"
    and f: "\<not> visited ! r ! c"
    by (auto simp: get2_def split: if_splits)
  from assms(2) r c have v': "visited' = visited[r := (visited ! r)[c := True]]"
    by (simp add: set2_def)
  let ?f = "\<lambda>row. length (filter Not row)"
  have a: "visited = take r visited @ visited ! r # drop (Suc r) visited"
    using r by (simp add: id_take_nth_drop)
  have b: "visited' = take r visited @ (visited ! r)[c := True] # drop (Suc r) visited"
    using r v' by (simp add: upd_conv_take_nth_drop)
  have "unvisited visited =
      sum_list (map ?f (take r visited)) + ?f (visited ! r) + sum_list (map ?f (drop (Suc r) visited))"
    unfolding unvisited_def by (subst a) simp
  moreover have "unvisited visited' =
      sum_list (map ?f (take r visited)) + ?f ((visited ! r)[c := True])
        + sum_list (map ?f (drop (Suc r) visited))"
    unfolding unvisited_def by (subst b) simp
  ultimately show ?thesis using unvisited_row [OF c f] by simp
qed

lemma try_visit_measure:
  "try_visit G I R C cur d (visited, q) = Inr (visited', q') \<Longrightarrow>
     unvisited visited' + length q' = unvisited visited + length q"
  by (cases cur; cases d)
     (auto simp: Let_def split: if_splits sum.splits dest: unvisited_set2)

lemma visit_all_measure:
  "visit_all G I R C cur ds (visited, q) = Inr (visited', q') \<Longrightarrow>
     unvisited visited' + length q' = unvisited visited + length q"
proof (induction ds arbitrary: visited q)
  case Nil
  then show ?case by simp
next
  case (Cons d ds)
  then obtain v1 q1 where 1: "try_visit G I R C cur d (visited, q) = Inr (v1, q1)"
    and 2: "visit_all G I R C cur ds (v1, q1) = Inr (visited', q')"
    by (auto split: sum.splits)
  from Cons.IH [OF 2] try_visit_measure [OF 1] show ?case by simp
qed

text \<open>The \<^verbatim>\<open>while q:\<close> loop (source lines 78 to 90).\<close>

function bfs_loop ::
  "grid \<Rightarrow> ice \<Rightarrow> nat \<Rightarrow> nat \<Rightarrow> bool list list \<Rightarrow> entry list \<Rightarrow> error + int option" where
  "bfs_loop G I R C visited [] = Inr None"
| "bfs_loop G I R C visited ((r, c, steps) # rest) =
     (if (r, c) = (0, int C - 1) then Inr (Some steps)
      else
        (case visit_all G I R C (r, c, steps) directions (visited, rest) of
           Inl e \<Rightarrow> Inl e
         | Inr (visited', q') \<Rightarrow> bfs_loop G I R C visited' q'))"
  by pat_completeness auto
termination
proof (relation "measure (\<lambda>(G, I, R, C, visited, q). unvisited visited + length q)", goal_cases)
  case 1
  then show ?case by simp
next
  case (2 G I R C visited r c steps rest x2 visited' q')
  then have "visit_all G I R C (r, c, steps) directions (visited, rest) = Inr (visited', q')"
    by simp
  from visit_all_measure [OF this] show ?case by simp
qed

definition find_shortest_safe_steps :: "grid \<Rightarrow> ice \<Rightarrow> error + int option" where
  "find_shortest_safe_steps G I =
     (case dims G of
        Inl e \<Rightarrow> Inl e
      | Inr (R, C) \<Rightarrow>
          (case set2 (replicate R (replicate C False)) 0 0 True of
             Inl e \<Rightarrow> Inl e
           | Inr visited \<Rightarrow> bfs_loop G I R C visited [(0, 0, 0)]))"

section \<open>The random source\<close>

text \<open>
  The script draws from Python's process-wide \<^verbatim>\<open>random\<close> module. The model passes the
  source explicitly: an infinite sequence of raw draws, consumed from the front. Every
  library call bottoms out in \<^verbatim>\<open>_randbelow(n)\<close>, which returns some value below \<open>n\<close>;
  here it is the next draw modulo \<open>n\<close>, so quantifying over all sequences covers every
  outcome. \<^verbatim>\<open>randint(a, b)\<close> is \<^verbatim>\<open>a + _randbelow(b - a + 1)\<close>, and \<^verbatim>\<open>shuffle\<close> is the
  library's loop \<^verbatim>\<open>for i in reversed(range(1, len(x))): j = _randbelow(i + 1);
  x[i], x[j] = x[j], x[i]\<close>. The script only calls them with non-empty ranges.
\<close>

type_synonym rng = "nat \<Rightarrow> nat"

definition randbelow :: "nat \<Rightarrow> rng \<Rightarrow> nat \<times> rng" where
  "randbelow n g = (g 0 mod n, \<lambda>i. g (Suc i))"

definition randint :: "int \<Rightarrow> int \<Rightarrow> rng \<Rightarrow> int \<times> rng" where
  "randint a b g = (let (k, g') = randbelow (nat (b - a + 1)) g in (a + int k, g'))"

fun shuffle_from :: "nat \<Rightarrow> 'a list \<Rightarrow> rng \<Rightarrow> 'a list \<times> rng" where
  "shuffle_from 0 xs g = (xs, g)"
| "shuffle_from (Suc i) xs g =
     (let (j, g') = randbelow (Suc i + 1) g
      in shuffle_from i (xs[Suc i := xs ! j, j := xs ! Suc i]) g')"

definition shuffle :: "'a list \<Rightarrow> rng \<Rightarrow> 'a list \<times> rng" where
  "shuffle xs g = shuffle_from (length xs - 1) xs g"

section \<open>The layout: \<^verbatim>\<open>generate_grid\<close>\<close>

definition base_grid :: grid where
  "base_grid =
    [''........#.'',
     ''..........'',
     ''..........'',
     ''..........'',
     ''#.........'',
     ''..........'',
     ''..........'',
     ''..........'',
     ''..........'',
     ''.....#....'']"

text \<open>
  The list comprehension of source lines 27 to 34. Its indices range over the rows and
  columns of the literal \<open>base_grid\<close>, so every read is in range.
\<close>

definition possible_positions :: "grid \<Rightarrow> nat \<Rightarrow> nat \<Rightarrow> (nat \<times> nat) list" where
  "possible_positions G R C =
     concat (map (\<lambda>r. concat (map (\<lambda>c.
        if G ! r ! c = CHR ''.'' \<and> (r, c) \<notin> set [(0, 0), (0, C - 1)] \<and> \<not> (r < 3 \<and> c < 3)
        then [(r, c)] else []) [C div 2..<C])) [0..<R])"

fun place_ice :: "(nat \<times> nat) list \<Rightarrow> grid \<Rightarrow> grid" where
  "place_ice [] G = G"
| "place_ice ((r, c) # ps) G = place_ice ps (G[r := (G ! r)[c := CHR ''I'']])"

definition generate_grid :: "rng \<Rightarrow> grid \<times> rng" where
  "generate_grid g =
     (case (length base_grid, length (base_grid ! 0)) of
        (R, C) \<Rightarrow>
          (case randint 3 5 g of
             (num_ice, g1) \<Rightarrow>
               (case shuffle (possible_positions base_grid R C) g1 of
                  (shuffled, g2) \<Rightarrow>
                    (place_ice (take (min (nat num_ice) (length shuffled)) shuffled) base_grid,
                     g2))))"

section \<open>The hazard spread: \<^verbatim>\<open>compute_ice_times\<close>\<close>

definition cells :: "nat \<Rightarrow> nat \<Rightarrow> (nat \<times> nat) list" where
  "cells R C = List.product [0..<R] [0..<C]"

text \<open>The seeding double loop (source lines 49 to 53), over the cells in row-major order.\<close>

fun seed_scan :: "grid \<Rightarrow> (nat \<times> nat) list \<Rightarrow> ice \<times> entry list \<Rightarrow> error + (ice \<times> entry list)" where
  "seed_scan G [] s = Inr s"
| "seed_scan G ((r, c) # ps) (I, q) =
     (case get2 G r c of
        Inl e \<Rightarrow> Inl e
      | Inr ch \<Rightarrow>
          if ch = CHR ''I'' then
            (case set2 I r c (PInt 0) of
               Inl e \<Rightarrow> Inl e
             | Inr I' \<Rightarrow> seed_scan G ps (I', q @ [(int r, int c, 0)]))
          else seed_scan G ps (I, q))"

text \<open>One pass of the body of the \<^verbatim>\<open>for dr, dc in dirs[:...]\<close> loop (source lines 59 to 64).\<close>

fun relax ::
  "grid \<Rightarrow> int \<Rightarrow> nat \<Rightarrow> nat \<Rightarrow> entry \<Rightarrow> int \<times> int \<Rightarrow> ice \<times> entry list
     \<Rightarrow> error + (ice \<times> entry list)" where
  "relax G spread_interval R C (r, c, t) (dr, dc) (I, q) =
     (let nr = r + dr; nc = c + dc in
      if 0 \<le> nr \<and> nr < int R \<and> 0 \<le> nc \<and> nc < int C then
        (case get2 G (nat nr) (nat nc) of
           Inl e \<Rightarrow> Inl e
         | Inr ch \<Rightarrow>
             if ch \<noteq> CHR ''#'' then
               (case get2 I (nat nr) (nat nc) of
                  Inl e \<Rightarrow> Inl e
                | Inr old \<Rightarrow>
                    if num_gt old (t + spread_interval) then
                      (case set2 I (nat nr) (nat nc) (PInt (t + spread_interval)) of
                         Inl e \<Rightarrow> Inl e
                       | Inr I' \<Rightarrow> Inr (I', q @ [(nr, nc, t + spread_interval)]))
                    else Inr (I, q))
             else Inr (I, q))
      else Inr (I, q))"

fun relax_all ::
  "grid \<Rightarrow> int \<Rightarrow> nat \<Rightarrow> nat \<Rightarrow> entry \<Rightarrow> (int \<times> int) list \<Rightarrow> ice \<times> entry list
     \<Rightarrow> error + (ice \<times> entry list)" where
  "relax_all G spread_interval R C cur [] s = Inr s"
| "relax_all G spread_interval R C cur (d # ds) s =
     (case relax G spread_interval R C cur d s of
        Inl e \<Rightarrow> Inl e
      | Inr s' \<Rightarrow> relax_all G spread_interval R C cur ds s')"

text \<open>
  The directions one expansion tries (source lines 56 to 58): a shuffled copy of the four
  directions, cut to its first \<^verbatim>\<open>random.randint(3,3)\<close> entries.
\<close>

definition attempted_dirs :: "rng \<Rightarrow> (int \<times> int) list \<times> rng" where
  "attempted_dirs g =
     (let (dirs, g1) = shuffle directions g;
          (k, g2) = randint 3 3 g1
      in (take (nat k) dirs, g2))"

text \<open>
  The \<^verbatim>\<open>while q:\<close> loop (source lines 54 to 64). With a negative interval the stored times
  can fall for ever, so the loop is a partial function: \<open>None\<close> is "does not return".
\<close>

partial_function (option) spread_loop ::
  "grid \<Rightarrow> int \<Rightarrow> nat \<Rightarrow> nat \<Rightarrow> ice \<Rightarrow> entry list \<Rightarrow> rng \<Rightarrow> (error + (ice \<times> rng)) option" where
  "spread_loop G spread_interval R C I q g =
     (case q of
        [] \<Rightarrow> Some (Inr (I, g))
      | cur # rest \<Rightarrow>
          (case attempted_dirs g of
             (dirs, g') \<Rightarrow>
               (case relax_all G spread_interval R C cur dirs (I, rest) of
                  Inl e \<Rightarrow> Some (Inl e)
                | Inr (I', q') \<Rightarrow> spread_loop G spread_interval R C I' q' g')))"

declare spread_loop.simps [code]

definition compute_ice_times :: "grid \<Rightarrow> int \<Rightarrow> rng \<Rightarrow> (error + (ice \<times> rng)) option" where
  "compute_ice_times G spread_interval g =
     (case dims G of
        Inl e \<Rightarrow> Some (Inl e)
      | Inr (R, C) \<Rightarrow>
          (case seed_scan G (cells R C) (replicate R (replicate C PInf), []) of
             Inl e \<Rightarrow> Some (Inl e)
           | Inr (I, q) \<Rightarrow> spread_loop G spread_interval R C I q g))"

section \<open>The calibration: \<^verbatim>\<open>generate_balanced_ice\<close>\<close>

text \<open>The \<^verbatim>\<open>while True:\<close> loop (source lines 97 to 102); \<open>None\<close> is "does not return".\<close>

partial_function (option) balance_loop ::
  "grid \<Rightarrow> int \<Rightarrow> int \<Rightarrow> rng \<Rightarrow> (error + ((ice \<times> int) \<times> rng)) option" where
  "balance_loop G max_steps interval g =
     (case compute_ice_times G interval g of
        None \<Rightarrow> None
      | Some (Inl e) \<Rightarrow> Some (Inl e)
      | Some (Inr (ice_time, g')) \<Rightarrow>
          (case find_shortest_safe_steps G ice_time of
             Inl e \<Rightarrow> Some (Inl e)
           | Inr shortest \<Rightarrow>
               (case shortest of
                  Some n \<Rightarrow>
                    if n < max_steps then Some (Inr ((ice_time, interval), g'))
                    else balance_loop G max_steps (interval + 1) g'
                | None \<Rightarrow> balance_loop G max_steps (interval + 1) g')))"

declare balance_loop.simps [code]

definition generate_balanced_ice :: "grid \<Rightarrow> int \<Rightarrow> rng \<Rightarrow> (error + ((ice \<times> int) \<times> rng)) option" where
  "generate_balanced_ice G max_steps g = balance_loop G max_steps 2 g"

section \<open>The move handler of the script\<close>

text \<open>
  The session fields the handler reads and writes (source lines 155 to 160), and the body
  run for a pressed direction button (source lines 192 to 206). \<^verbatim>\<open>st.experimental_rerun()\<close>
  ends the current run of the script, so the statements after it on the frozen branch are
  not executed. The warning of the last branch is presentation only: the session is
  unchanged there.
\<close>

record session =
  pos_r :: int
  pos_c :: int
  current_steps :: int
  game_over :: bool
  won :: bool

definition move :: "grid \<Rightarrow> ice \<Rightarrow> session \<Rightarrow> int \<times> int \<Rightarrow> error + session" where
  "move G ice_time s d =
     (case dims G of
        Inl e \<Rightarrow> Inl e
      | Inr (R, C) \<Rightarrow>
          (let nr = pos_r s + fst d; nc = pos_c s + snd d in
           if 0 \<le> nr \<and> nr < int R \<and> 0 \<le> nc \<and> nc < int C then
             (case get2 G (nat nr) (nat nc) of
                Inl e \<Rightarrow> Inl e
              | Inr ch \<Rightarrow>
                  if ch \<noteq> CHR ''#'' then
                    (let new_steps = current_steps s + 1 in
                     case get2 ice_time (nat nr) (nat nc) of
                       Inl e \<Rightarrow> Inl e
                     | Inr t \<Rightarrow>
                         if int_ge new_steps t then Inr (s\<lparr>game_over := True\<rparr>)
                         else
                           (let s1 = s\<lparr>pos_r := nr, pos_c := nc, current_steps := new_steps\<rparr>
                            in if (nr, nc) = (0, int C - 1) then Inr (s1\<lparr>won := True\<rparr>)
                               else Inr s1))
                  else Inr s)
           else Inr s))"

section \<open>Properties of the random source and of the base layout\<close>

lemma base_grid_no_seed:
  "compute_ice_times base_grid si g = Some (Inr (replicate 10 (replicate 10 PInf), g))"
proof -
  have d: "dims base_grid = Inr (10, 10)" by code_simp
  have s: "seed_scan base_grid (cells 10 10) (replicate 10 (replicate 10 PInf), [])
      = Inr (replicate 10 (replicate 10 PInf), [])" by code_simp
  show ?thesis
    by (simp add: compute_ice_times_def d s spread_loop.simps [of _ _ _ _ _ "[]"])
qed

lemma base_grid_bfs:
  "find_shortest_safe_steps base_grid (replicate 10 (replicate 10 PInf)) = Inr (Some 11)"
  by code_simp

lemma shuffle_from_mset:
  "i < length xs \<Longrightarrow> mset (fst (shuffle_from i xs g)) = mset xs"
proof (induction i arbitrary: xs g)
  case 0
  then show ?case by simp
next
  case (Suc i)
  let ?j = "g 0 mod (Suc i + 1)"
  have "?j < Suc i + 1" by (rule mod_less_divisor) simp
  with Suc.prems have j: "?j < length xs" by linarith
  have "mset (xs[Suc i := xs ! ?j, ?j := xs ! Suc i]) = mset xs"
    using mset_swap [OF j Suc.prems] .
  moreover have "i < length (xs[Suc i := xs ! ?j, ?j := xs ! Suc i])"
    using Suc.prems by simp
  ultimately show ?case using Suc.IH [of "xs[Suc i := xs ! ?j, ?j := xs ! Suc i]"]
    by (simp add: randbelow_def)
qed

lemma shuffle_mset: "mset (fst (shuffle xs g)) = mset xs"
proof (cases xs)
  case Nil
  then show ?thesis by (simp add: shuffle_def)
next
  case (Cons a list)
  then show ?thesis unfolding shuffle_def by (intro shuffle_from_mset) simp
qed

lemma randint_3_3: "fst (randint 3 3 g) = 3"
  by (simp add: randint_def randbelow_def)


lemma attempted_dirs_perm:
  "\<exists>d1 d2 d3 d4. fst (attempted_dirs g) = [d1, d2, d3] \<and> mset [d1, d2, d3, d4] = mset directions"
proof -
  obtain dirs g1 where sh: "shuffle directions g = (dirs, g1)" by (cases "shuffle directions g")
  from shuffle_mset [of directions g] sh have m: "mset dirs = mset directions" by simp
  then have "length dirs = 4" using mset_eq_length [OF m] by (simp add: directions_def)
  then obtain d1 d2 d3 d4 where dirs: "dirs = [d1, d2, d3, d4]"
    by (auto simp: length_Suc_conv numeral_eq_Suc)
  obtain k g2 where ri: "randint 3 3 g1 = (k, g2)" by (cases "randint 3 3 g1")
  with randint_3_3 [of g1] have "k = 3" by simp
  with sh ri dirs have "fst (attempted_dirs g) = [d1, d2, d3]"
    by (simp add: attempted_dirs_def)
  with m dirs show ?thesis by blast
qed

section \<open>What the calibration loop returns\<close>

lemma balance_loop_result:
  assumes "balance_loop G max_steps interval g = Some (Inr ((ice_time, i), g'))"
  shows "\<exists>g0 n. interval \<le> i \<and> compute_ice_times G i g0 = Some (Inr (ice_time, g'))
           \<and> find_shortest_safe_steps G ice_time = Inr (Some n) \<and> n < max_steps"
proof -
  let ?P = "\<lambda>G max_steps interval (g :: rng) (y :: error + ((ice \<times> int) \<times> rng)).
      \<forall>ice_time i g'. y = Inr ((ice_time, i), g') \<longrightarrow>
        (\<exists>g0 n. interval \<le> i \<and> compute_ice_times G i g0 = Some (Inr (ice_time, g'))
           \<and> find_shortest_safe_steps G ice_time = Inr (Some n) \<and> n < max_steps)"
  have step: "?P G max_steps interval g y"
    if IH: "\<And>G max_steps interval g y. loop G max_steps interval g = Some y
        \<Longrightarrow> ?P G max_steps interval g y"
    and body: "(case compute_ice_times G interval g of
        None \<Rightarrow> None
      | Some (Inl e) \<Rightarrow> Some (Inl e)
      | Some (Inr (ice_time, g')) \<Rightarrow>
          (case find_shortest_safe_steps G ice_time of
             Inl e \<Rightarrow> Some (Inl e)
           | Inr shortest \<Rightarrow>
               (case shortest of
                  Some n \<Rightarrow>
                    if n < max_steps then Some (Inr ((ice_time, interval), g'))
                    else loop G max_steps (interval + 1) g'
                | None \<Rightarrow> loop G max_steps (interval + 1) g'))) = Some y"
    for loop :: "grid \<Rightarrow> int \<Rightarrow> int \<Rightarrow> rng \<Rightarrow> (error + ((ice \<times> int) \<times> rng)) option"
      and G max_steps interval g y
  proof -
    show "?P G max_steps interval g y"
    proof (cases "compute_ice_times G interval g")
      case None
      with body show ?thesis by simp
    next
      case (Some r)
      show ?thesis
      proof (cases r)
        case (Inl e)
        with Some body show ?thesis by auto
      next
        case (Inr p)
        obtain I1 g1 where p: "p = (I1, g1)" by (cases p)
        note c = Some [unfolded Inr p]
        show ?thesis
        proof (cases "find_shortest_safe_steps G I1")
          case (Inl e)
          with c body show ?thesis by auto
        next
          case sh: (Inr shortest)
          show ?thesis
          proof (cases "\<exists>n. shortest = Some n \<and> n < max_steps")
            case True
            with c sh body show ?thesis by auto
          next
            case False
            with c sh body have "loop G max_steps (interval + 1) g1 = Some y"
              by (auto split: option.splits if_splits)
            from IH [OF this] have ih: "?P G max_steps (interval + 1) g1 y" .
            show ?thesis
            proof (intro allI impI)
              fix ice_time i g'
              assume "y = Inr ((ice_time, i), g')"
              with ih obtain g0 n where "interval + 1 \<le> i"
                and r: "compute_ice_times G i g0 = Some (Inr (ice_time, g'))"
                  "find_shortest_safe_steps G ice_time = Inr (Some n)" "n < max_steps"
                by blast
              then have "interval \<le> i" by simp
              with r show "\<exists>g0 n. interval \<le> i
                  \<and> compute_ice_times G i g0 = Some (Inr (ice_time, g'))
                  \<and> find_shortest_safe_steps G ice_time = Inr (Some n) \<and> n < max_steps"
                by blast
            qed
          qed
        qed
      qed
    qed
  qed
  have "?P G max_steps interval g (Inr ((ice_time, i), g'))"
    by (rule balance_loop.raw_induct [where P = ?P, OF _ assms]) (rule step)
  then show ?thesis by blast
qed

section \<open>Claims settled by the loop structure\<close>

text \<open>
  Claim C1. Whenever \<^verbatim>\<open>generate_balanced_ice(grid, max_steps)\<close> returns a pair
  \<open>(ice_time, interval)\<close>, the reachability search on the grid and the returned matrix
  yields a finite step count strictly below \<open>max_steps\<close>. This holds for every grid, every
  step budget and every sequence of random draws.
\<close>

theorem calibration_postcondition:
  "generate_balanced_ice G max_steps g = Some (Inr ((ice_time, interval), g')) \<Longrightarrow>
     \<exists>n. find_shortest_safe_steps G ice_time = Inr (Some n) \<and> n < max_steps"
  unfolding generate_balanced_ice_def by (blast dest: balance_loop_result)

text \<open>
  The calibration returns on the one-row grid of two open cells with the default budget 15,
  and the search on the returned matrix finds the exit in one step.
\<close>

theorem calibration_postcondition_witness:
  "(\<exists>g'. generate_balanced_ice [''..''] 15 (\<lambda>_. 0) = Some (Inr (([[PInf, PInf]], 2), g')))
   \<and> (\<exists>n. find_shortest_safe_steps [''..''] [[PInf, PInf]] = Inr (Some n) \<and> n < 15)"
proof -
  have "map_option (map_sum id fst) (generate_balanced_ice [''..''] 15 (\<lambda>_. 0))
      = Some (Inr ([[PInf, PInf]], 2))" by code_simp
  then obtain g' where h: "generate_balanced_ice [''..''] 15 (\<lambda>_. 0) = Some (Inr (([[PInf, PInf]], 2), g'))"
    by (cases "generate_balanced_ice [''..''] 15 (\<lambda>_. 0)"; cases "the (generate_balanced_ice [''..''] 15 (\<lambda>_. 0))") auto
  from calibration_postcondition [OF h] h show ?thesis by blast
qed

text \<open>
  Claim C4 (as amended). On the 10 by 10 base layout with walls at (0,8), (4,0) and (9,5)
  and no seed, every freeze time is infinite and the reachability search returns 11: the
  wall at (0,8) closes row 0, so the exit (0,9) is entered from (1,9), which is 10 moves
  from the start.
\<close>

theorem base_grid_shortest:
  "compute_ice_times base_grid spread_interval g = Some (Inr (replicate 10 (replicate 10 PInf), g))
   \<and> find_shortest_safe_steps base_grid (replicate 10 (replicate 10 PInf)) = Inr (Some 11)"
  using base_grid_no_seed base_grid_bfs by simp

text \<open>Claim C4 as stated gives 9 moves; the search does not return 9.\<close>

theorem base_grid_shortest_not_9:
  "find_shortest_safe_steps base_grid (replicate 10 (replicate 10 PInf)) \<noteq> Inr (Some 9)"
  using base_grid_bfs by simp

text \<open>
  Claim C7. Every expansion of a dequeued entry attempts exactly three directions: they are
  pairwise different, they form a proper subset of the four directions, and the loop
  relaxes exactly these three before it continues with the rest of the queue.
\<close>

theorem expansion_attempts_three:
  "\<exists>d1 d2 d3.
     fst (attempted_dirs g) = [d1, d2, d3] \<and> distinct [d1, d2, d3]
     \<and> set [d1, d2, d3] \<subset> set directions
     \<and> spread_loop G spread_interval R C I (cur # rest) g =
         (case relax_all G spread_interval R C cur [d1, d2, d3] (I, rest) of
            Inl e \<Rightarrow> Some (Inl e)
          | Inr (I', q') \<Rightarrow> spread_loop G spread_interval R C I' q' (snd (attempted_dirs g)))"
proof -
  obtain d1 d2 d3 d4 where a: "fst (attempted_dirs g) = [d1, d2, d3]"
    and m: "mset [d1, d2, d3, d4] = mset directions"
    using attempted_dirs_perm by blast
  have dd: "distinct directions" by (simp add: directions_def)
  from m have d: "distinct [d1, d2, d3, d4]" using dd mset_eq_imp_distinct_iff by blast
  from m have s: "set [d1, d2, d3, d4] = set directions" by (rule mset_eq_setD)
  have "set [d1, d2, d3] \<subset> set directions" using d s by auto
  moreover have "distinct [d1, d2, d3]" using d by simp
  moreover have "spread_loop G spread_interval R C I (cur # rest) g =
         (case relax_all G spread_interval R C cur [d1, d2, d3] (I, rest) of
            Inl e \<Rightarrow> Some (Inl e)
          | Inr (I', q') \<Rightarrow> spread_loop G spread_interval R C I' q' (snd (attempted_dirs g)))"
    using a by (subst spread_loop.simps) (simp add: case_prod_beta del: relax_all.simps)
  ultimately show ?thesis using a by blast
qed

text \<open>
  Claim C5. For an in-bounds target cell that is not a wall, the move handler ends the game
  exactly when the step count after the move is at least the freeze time of the target,
  which is exactly when the strict test \<open>int_lt\<close> of the reachability search fails;
  otherwise the player occupies the target and the step count advances by one.
\<close>

theorem move_safety:
  assumes "dims G = Inr (R, C)"
    and "0 \<le> pos_r s + dr" and "pos_r s + dr < int R"
    and "0 \<le> pos_c s + dc" and "pos_c s + dc < int C"
    and "get2 G (nat (pos_r s + dr)) (nat (pos_c s + dc)) = Inr ch" and "ch \<noteq> CHR ''#''"
    and "get2 ice_time (nat (pos_r s + dr)) (nat (pos_c s + dc)) = Inr t"
    and "\<not> game_over s"
  shows "\<exists>s'. move G ice_time s (dr, dc) = Inr s'
     \<and> (game_over s' \<longleftrightarrow> int_ge (current_steps s + 1) t)
     \<and> (game_over s' \<longleftrightarrow> \<not> int_lt (current_steps s + 1) t)
     \<and> (\<not> game_over s' \<longrightarrow>
           pos_r s' = pos_r s + dr \<and> pos_c s' = pos_c s + dc
           \<and> current_steps s' = current_steps s + 1)"
  using assms by (cases t) (auto simp: move_def Let_def)

text \<open>
  Moving right on a one-row grid: with freeze time 1 at the target the game is over, with
  freeze time 2 the player reaches the target (which is the exit).
\<close>

theorem move_safety_witness:
  "move [''..''] [[PInf, PInt 1]] \<lparr>pos_r = 0, pos_c = 0, current_steps = 0, game_over = False, won = False\<rparr> (0, 1)
     = Inr \<lparr>pos_r = 0, pos_c = 0, current_steps = 0, game_over = True, won = False\<rparr>
   \<and> move [''..''] [[PInf, PInt 2]] \<lparr>pos_r = 0, pos_c = 0, current_steps = 0, game_over = False, won = False\<rparr> (0, 1)
     = Inr \<lparr>pos_r = 0, pos_c = 1, current_steps = 1, game_over = False, won = True\<rparr>"
proof -
  let ?s = "\<lparr>pos_r = 0, pos_c = 0, current_steps = 0, game_over = False, won = False\<rparr>"
  have d: "dims [''..''] = Inr (1, 2)" by (simp add: dims_def)
  have g: "get2 [''..''] (nat (pos_r ?s + 0)) (nat (pos_c ?s + 1)) = Inr CHR ''.''"
    by (simp add: get2_def)
  have t1: "get2 [[PInf, PInt 1]] (nat (pos_r ?s + 0)) (nat (pos_c ?s + 1)) = Inr (PInt 1)"
    by (simp add: get2_def)
  have t2: "get2 [[PInf, PInt 2]] (nat (pos_r ?s + 0)) (nat (pos_c ?s + 1)) = Inr (PInt 2)"
    by (simp add: get2_def)
  from move_safety [of "[''..'']" 1 2 ?s 0 1 "CHR ''.''" "[[PInf, PInt 1]]" "PInt 1"] d g t1
  obtain s1 where 1: "move [''..''] [[PInf, PInt 1]] ?s (0, 1) = Inr s1" and "game_over s1"
    by auto
  from move_safety [of "[''..'']" 1 2 ?s 0 1 "CHR ''.''" "[[PInf, PInt 2]]" "PInt 2"] d g t2
  obtain s2 where 2: "move [''..''] [[PInf, PInt 2]] ?s (0, 1) = Inr s2" and "\<not> game_over s2"
    by auto
  from 1 2 show ?thesis by (simp add: move_def dims_def get2_def)
qed

section \<open>Rectangular matrices\<close>

text \<open>
  The shape the script expects of its matrices: \<open>R\<close> rows of \<open>C\<close> entries each. Cells are
  addressed by integer pairs, as in the queues: \<open>inb\<close> is the bounds test
  \<^verbatim>\<open>0 <= nr < R and 0 <= nc < C\<close>, \<open>cell\<close> reads an entry and \<open>put\<close> writes one.
\<close>

definition rect :: "'a list list \<Rightarrow> nat \<Rightarrow> nat \<Rightarrow> bool" where
  "rect m R C = (length m = R \<and> list_all (\<lambda>row. length row = C) m)"

definition inb :: "nat \<Rightarrow> nat \<Rightarrow> int \<times> int \<Rightarrow> bool" where
  "inb R C p = (0 \<le> fst p \<and> fst p < int R \<and> 0 \<le> snd p \<and> snd p < int C)"

definition cell :: "'a list list \<Rightarrow> int \<times> int \<Rightarrow> 'a" where
  "cell m p = m ! nat (fst p) ! nat (snd p)"

definition adjacent :: "int \<times> int \<Rightarrow> int \<times> int \<Rightarrow> bool" where
  "adjacent p u = (\<bar>fst p - fst u\<bar> + \<bar>snd p - snd u\<bar> = 1)"

lemma rect_row: "rect m R C \<Longrightarrow> r < R \<Longrightarrow> length (m ! r) = C"
  by (auto simp: rect_def list_all_length)

lemma rect_replicate: "rect (replicate R (replicate C x)) R C"
  by (simp add: rect_def list_all_length)

lemma get2_rect: "rect m R C \<Longrightarrow> r < R \<Longrightarrow> c < C \<Longrightarrow> get2 m r c = Inr (m ! r ! c)"
  by (auto simp: get2_def rect_def list_all_length)

lemma set2_rect:
  "rect m R C \<Longrightarrow> r < R \<Longrightarrow> c < C \<Longrightarrow> set2 m r c v = Inr (m[r := (m ! r)[c := v]])"
  by (auto simp: set2_def rect_def list_all_length)

lemma rect_update: "rect m R C \<Longrightarrow> rect (m[r := (m ! r)[c := v]]) R C"
proof -
  assume m: "rect m R C"
  have "length (m[r := (m ! r)[c := v]] ! n) = C" if "n < length m" for n
    using that m by (cases "n = r") (auto simp: rect_def list_all_length)
  with m show ?thesis by (simp add: rect_def list_all_length)
qed

lemma nth_update2:
  "rect m R C \<Longrightarrow> r < R \<Longrightarrow> c < C \<Longrightarrow> r' < R \<Longrightarrow> c' < C \<Longrightarrow>
     m[r := (m ! r)[c := v]] ! r' ! c' = (if r' = r \<and> c' = c then v else m ! r' ! c')"
  by (auto simp: rect_def list_all_length nth_list_update)

lemma get2_inb: "rect m R C \<Longrightarrow> inb R C (r, c) \<Longrightarrow> get2 m (nat r) (nat c) = Inr (cell m (r, c))"
proof -
  assume m: "rect m R C" and p: "inb R C (r, c)"
  from p have "nat r < R" "nat c < C" by (auto simp: inb_def)
  from get2_rect [OF m this] show ?thesis by (simp add: cell_def)
qed

definition put :: "'a list list \<Rightarrow> int \<times> int \<Rightarrow> 'a \<Rightarrow> 'a list list" where
  "put m p v = m[nat (fst p) := (m ! nat (fst p))[nat (snd p) := v]]"

lemma set2_put:
  "rect m R C \<Longrightarrow> inb R C (r, c) \<Longrightarrow> set2 m (nat r) (nat c) v = Inr (put m (r, c) v)"
proof -
  assume m: "rect m R C" and p: "inb R C (r, c)"
  from p have "nat r < R" "nat c < C" by (auto simp: inb_def)
  from set2_rect [OF m this] show ?thesis by (simp add: put_def)
qed

lemma rect_put: "rect m R C \<Longrightarrow> rect (put m p v) R C"
  unfolding put_def by (rule rect_update)

lemma cell_put:
  assumes m: "rect m R C" and p: "inb R C p" and q: "inb R C q"
  shows "cell (put m p v) q = (if q = p then v else cell m q)"
proof -
  from p have rc: "nat (fst p) < R" "nat (snd p) < C" by (auto simp: inb_def)
  from q have q': "nat (fst q) < R" "nat (snd q) < C" by (auto simp: inb_def)
  have "nat (fst q) = nat (fst p) \<and> nat (snd q) = nat (snd p) \<longleftrightarrow> q = p"
    using p q by (cases p; cases q) (auto simp: inb_def)
  then show ?thesis using nth_update2 [OF m rc q', of v] by (simp add: cell_def put_def)
qed

lemma directions_adjacent: "d \<in> set directions \<Longrightarrow> adjacent (r + fst d, c + snd d) (r, c)"
  by (auto simp: directions_def adjacent_def)

lemma adjacent_directions:
  "adjacent u p \<Longrightarrow> \<exists>d \<in> set directions. u = (fst p + fst d, snd p + snd d)"
  by (cases u; cases p) (auto simp: directions_def adjacent_def)

lemma adjacent_sym: "adjacent p u = adjacent u p"
  by (auto simp: adjacent_def)

section \<open>A measure on matrices\<close>

definition total :: "('a \<Rightarrow> nat) \<Rightarrow> 'a list list \<Rightarrow> nat" where
  "total f m = sum_list (map (\<lambda>row. sum_list (map f row)) m)"

lemma sum_list_map_update:
  "c < length row \<Longrightarrow>
     sum_list (map f (row[c := v])) + f (row ! c) = sum_list (map f row) + (f v :: nat)"
proof -
  assume c: "c < length row"
  have a: "row = take c row @ row ! c # drop (Suc c) row"
    using c by (simp add: id_take_nth_drop)
  have b: "row[c := v] = take c row @ v # drop (Suc c) row"
    using c by (simp add: upd_conv_take_nth_drop)
  have "sum_list (map f row) =
      sum_list (map f (take c row)) + f (row ! c) + sum_list (map f (drop (Suc c) row))"
    by (subst a) simp
  moreover have "sum_list (map f (row[c := v])) =
      sum_list (map f (take c row)) + f v + sum_list (map f (drop (Suc c) row))"
    by (subst b) simp
  ultimately show ?thesis by simp
qed

lemma total_update:
  assumes "r < length m" and "c < length (m ! r)"
  shows "total f (m[r := (m ! r)[c := v]]) + f (m ! r ! c) = total f m + f v"
proof -
  let ?g = "\<lambda>row. sum_list (map f row)"
  have "total f (m[r := (m ! r)[c := v]]) + ?g (m ! r) = total f m + ?g ((m ! r)[c := v])"
    unfolding total_def using sum_list_map_update [OF assms(1), of ?g "(m ! r)[c := v]"] .
  with sum_list_map_update [OF assms(2), of f v] show ?thesis by linarith
qed

section \<open>The invariant of the spread loop\<close>

text \<open>
  What holds of the matrix and the queue at every turn of the spread loop, for an interval
  of at least 1. A seed cell keeps time 0. Any other cell holds infinity, or a finite time
  that is a multiple of the interval, at least the interval, on a cell that is not a wall,
  and \<open>fed_by\<close> a neighbour: one of the four neighbours holds a finite time at least one
  interval earlier. A queue entry lies inside the grid, carries a non-negative multiple of
  the interval, and its cell holds a finite time no later than the entry's.
  Every relaxation lowers the matrix in the order \<open>ice_less\<close> (fewer infinite entries, or
  as many and a smaller sum of the finite ones), which is what makes the loop end.
\<close>

definition pn_le :: "pynum \<Rightarrow> pynum \<Rightarrow> bool" where
  "pn_le a b = (case b of PInf \<Rightarrow> True | PInt y \<Rightarrow> num_le a y)"

definition fed_by :: "int \<Rightarrow> nat \<Rightarrow> nat \<Rightarrow> ice \<Rightarrow> int \<times> int \<Rightarrow> int \<Rightarrow> bool" where
  "fed_by si R C I p v =
     list_ex (\<lambda>d. let u = (fst p + fst d, snd p + snd d)
                  in inb R C u \<and> (case cell I u of PInt w \<Rightarrow> w + si \<le> v | PInf \<Rightarrow> False))
       directions"

definition cell_ok :: "grid \<Rightarrow> int \<Rightarrow> nat \<Rightarrow> nat \<Rightarrow> ice \<Rightarrow> int \<times> int \<Rightarrow> bool" where
  "cell_ok G si R C I p =
     (if cell G p = CHR ''I'' then cell I p = PInt 0
      else (case cell I p of
              PInf \<Rightarrow> True
            | PInt v \<Rightarrow> cell G p \<noteq> CHR ''#'' \<and> si \<le> v \<and> si dvd v \<and> fed_by si R C I p v))"

definition entry_ok :: "int \<Rightarrow> nat \<Rightarrow> nat \<Rightarrow> ice \<Rightarrow> entry \<Rightarrow> bool" where
  "entry_ok si R C I e =
     (case e of (r, c, t) \<Rightarrow>
        inb R C (r, c) \<and> 0 \<le> t \<and> si dvd t
        \<and> (case cell I (r, c) of PInt w \<Rightarrow> w \<le> t | PInf \<Rightarrow> False))"

definition spread_inv :: "grid \<Rightarrow> int \<Rightarrow> nat \<Rightarrow> nat \<Rightarrow> ice \<Rightarrow> entry list \<Rightarrow> bool" where
  "spread_inv G si R C I q =
     (rect I R C \<and> (\<forall>p. inb R C p \<longrightarrow> cell_ok G si R C I p) \<and> list_all (entry_ok si R C I) q)"

definition ninf :: "ice \<Rightarrow> nat" where
  "ninf I = total (\<lambda>x. if x = PInf then 1 else 0) I"

definition sumfin :: "ice \<Rightarrow> nat" where
  "sumfin I = total (\<lambda>x. case x of PInt v \<Rightarrow> nat v | PInf \<Rightarrow> 0) I"

definition ice_less :: "(ice \<times> ice) set" where
  "ice_less = inv_image (less_than <*lex*> less_than) (\<lambda>I. (ninf I, sumfin I))"

lemma wf_ice_less: "wf ice_less"
  unfolding ice_less_def by (intro wf_inv_image wf_lex_prod wf_less_than)

lemma trans_ice_less: "trans ice_less"
  unfolding ice_less_def by (intro trans_inv_image trans_lex_prod) simp_all

lemma pn_le_refl: "pn_le a a"
  by (cases a) (simp_all add: pn_le_def)

lemma fed_by_mono:
  assumes "fed_by si R C I p v" and "\<And>u. inb R C u \<Longrightarrow> pn_le (cell I' u) (cell I u)"
  shows "fed_by si R C I' p v"
proof -
  from assms(1) obtain d where d: "d \<in> set directions"
    and u: "inb R C (fst p + fst d, snd p + snd d)"
    and w: "case cell I (fst p + fst d, snd p + snd d) of PInt w \<Rightarrow> w + si \<le> v | PInf \<Rightarrow> False"
    by (auto simp: fed_by_def list_ex_iff Let_def)
  from assms(2) [OF u] w
  have "case cell I' (fst p + fst d, snd p + snd d) of PInt w \<Rightarrow> w + si \<le> v | PInf \<Rightarrow> False"
    by (auto simp: pn_le_def split: pynum.splits)
  with d u show ?thesis by (auto simp: fed_by_def list_ex_iff Let_def)
qed

lemma entry_ok_mono:
  assumes "entry_ok si R C I e" and "\<And>u. inb R C u \<Longrightarrow> pn_le (cell I' u) (cell I u)"
  shows "entry_ok si R C I' e"
proof -
  obtain r c t where e: "e = (r, c, t)" by (cases e)
  from assms(1) e have i: "inb R C (r, c)" by (simp add: entry_ok_def)
  from assms(2) [OF i] assms(1) e show ?thesis
    by (auto simp: entry_ok_def pn_le_def split: pynum.splits)
qed

lemma ice_less_update:
  assumes m: "rect I R C" and p: "inb R C (r, c)"
    and gt: "num_gt (cell I (r, c)) v" and v: "0 \<le> v"
  shows "(put I (r, c) (PInt v), I) \<in> ice_less"
proof -
  from p have rc: "nat r < R" "nat c < C" by (auto simp: inb_def)
  from m rc have l: "nat r < length I" "nat c < length (I ! nat r)"
    by (auto simp: rect_def list_all_length)
  have put: "put I (r, c) (PInt v) = I[nat r := (I ! nat r)[nat c := PInt v]]"
    by (simp add: put_def)
  let ?I' = "I[nat r := (I ! nat r)[nat c := PInt v]]"
  let ?old = "I ! nat r ! nat c"
  have n: "ninf ?I' + (if ?old = PInf then 1 else 0) = ninf I"
    unfolding ninf_def using total_update [OF l, of "\<lambda>x. if x = PInf then 1 else 0" "PInt v"]
    by simp
  have s: "sumfin ?I' + (case ?old of PInt v \<Rightarrow> nat v | PInf \<Rightarrow> 0) = sumfin I + nat v"
    unfolding sumfin_def
    using total_update [OF l, of "\<lambda>x. case x of PInt v \<Rightarrow> nat v | PInf \<Rightarrow> 0" "PInt v"]
    by simp
  show ?thesis
  proof (cases ?old)
    case PInf
    with n have "ninf ?I' < ninf I" by simp
    then show ?thesis by (simp add: ice_less_def put)
  next
    case (PInt v0)
    with gt have "v < v0" by (simp add: cell_def)
    with v have nv: "nat v < nat v0" by simp
    from n PInt have 1: "ninf ?I' = ninf I" by simp
    from s PInt have "sumfin ?I' + nat v0 = sumfin I + nat v" by simp
    with nv have "sumfin ?I' < sumfin I" by linarith
    with 1 show ?thesis by (simp add: ice_less_def put)
  qed
qed


lemma relax_step:
  assumes si: "1 \<le> si" and G: "rect G R C" and inv: "spread_inv G si R C I q"
    and cur: "entry_ok si R C I (r, c, t)" and d: "(dr, dc) \<in> set directions"
  shows "\<exists>I' q'. relax G si R C (r, c, t) (dr, dc) (I, q) = Inr (I', q')
           \<and> spread_inv G si R C I' q' \<and> entry_ok si R C I' (r, c, t)
           \<and> ((I' = I \<and> q' = q) \<or> (I', I) \<in> ice_less)"
proof -
  let ?p = "(r + dr, c + dc)"
  from inv have I: "rect I R C" and cells: "\<And>p. inb R C p \<Longrightarrow> cell_ok G si R C I p"
    and q: "list_all (entry_ok si R C I) q"
    by (auto simp: spread_inv_def)
  from cur have t: "0 \<le> t" and tdvd: "si dvd t" and curb: "inb R C (r, c)"
    and curw: "case cell I (r, c) of PInt w \<Rightarrow> w \<le> t | PInf \<Rightarrow> False"
    by (auto simp: entry_ok_def)
  have same: ?thesis if "relax G si R C (r, c, t) (dr, dc) (I, q) = Inr (I, q)"
    using that inv cur by simp
  show ?thesis
  proof (cases "inb R C ?p")
    case False
    then have "relax G si R C (r, c, t) (dr, dc) (I, q) = Inr (I, q)"
      by (auto simp: inb_def Let_def)
    then show ?thesis by (rule same)
  next
    case p: True
    then have b: "0 \<le> r + dr \<and> r + dr < int R \<and> 0 \<le> c + dc \<and> c + dc < int C"
      by (simp add: inb_def)
    note gG = get2_inb [OF G p] and gI = get2_inb [OF I p]
    show ?thesis
    proof (cases "cell G ?p \<noteq> CHR ''#'' \<and> num_gt (cell I ?p) (t + si)")
      case False
      then have "relax G si R C (r, c, t) (dr, dc) (I, q) = Inr (I, q)"
        using b gG gI by (auto simp: Let_def)
      then show ?thesis by (rule same)
    next
      case True
      let ?v = "t + si"
      let ?I' = "put I ?p (PInt ?v)"
      let ?q' = "q @ [(r + dr, c + dc, ?v)]"
      from True have nw: "cell G ?p \<noteq> CHR ''#''" and gt: "num_gt (cell I ?p) ?v" by simp_all
      have res: "relax G si R C (r, c, t) (dr, dc) (I, q) = Inr (?I', ?q')"
        using b gG gI nw gt set2_put [OF I p, of "PInt ?v"] by (simp add: Let_def)
      have I': "rect ?I' R C" using I by (rule rect_put)
      have c': "cell ?I' u = (if u = ?p then PInt ?v else cell I u)" if "inb R C u" for u
        using cell_put [OF I p that] .
      have v0: "0 \<le> ?v" using t si by simp
      have mono: "pn_le (cell ?I' u) (cell I u)" if "inb R C u" for u
      proof (cases "u = ?p")
        case True
        with gt c' [OF that] show ?thesis
          by (cases "cell I ?p") (auto simp: pn_le_def)
      next
        case False
        with c' [OF that] show ?thesis by (simp add: pn_le_refl)
      qed
      have ns: "cell G ?p \<noteq> CHR ''I''"
      proof
        assume "cell G ?p = CHR ''I''"
        with cells [OF p] have "cell I ?p = PInt 0" by (simp add: cell_ok_def)
        with gt v0 show False by simp
      qed
      have ne: "(r, c) \<noteq> ?p" using d by (auto simp: directions_def)
      have "(- dr, - dc) \<in> set directions" using d by (auto simp: directions_def)
      moreover have "case cell ?I' (r, c) of PInt w \<Rightarrow> w + si \<le> ?v | PInf \<Rightarrow> False"
        using curw c' [OF curb] ne by (auto split: pynum.splits)
      ultimately have fed: "fed_by si R C ?I' ?p ?v"
        using curb by (force simp: fed_by_def list_ex_iff Let_def)
      have ok: "cell_ok G si R C ?I' u" if u: "inb R C u" for u
      proof (cases "u = ?p")
        case True
        with ns nw fed c' [OF u] tdvd t si show ?thesis by (simp add: cell_ok_def)
      next
        case False
        with c' [OF u] have e: "cell ?I' u = cell I u" by simp
        from cells [OF u] show ?thesis
          unfolding cell_ok_def e
          by (auto split: pynum.splits intro: fed_by_mono [OF _ mono])
      qed
      have "entry_ok si R C ?I' (r + dr, c + dc, ?v)"
        using p v0 tdvd c' [OF p] by (simp add: entry_ok_def)
      moreover have "list_all (entry_ok si R C ?I') q"
        using q by (auto simp: list_all_iff intro: entry_ok_mono [OF _ mono])
      ultimately have inv': "spread_inv G si R C ?I' ?q'"
        using I' ok by (simp add: spread_inv_def)
      have "entry_ok si R C ?I' (r, c, t)" using cur mono by (rule entry_ok_mono)
      moreover have "(?I', I) \<in> ice_less" using I p gt v0 by (rule ice_less_update)
      ultimately show ?thesis using res inv' by blast
    qed
  qed
qed

lemma relax_all_step:
  assumes si: "1 \<le> si" and G: "rect G R C" and ds: "set ds \<subseteq> set directions"
    and inv: "spread_inv G si R C I q" and cur: "entry_ok si R C I cur"
  shows "\<exists>I' q'. relax_all G si R C cur ds (I, q) = Inr (I', q')
           \<and> spread_inv G si R C I' q'
           \<and> ((I' = I \<and> q' = q) \<or> (I', I) \<in> ice_less)"
  using ds inv cur
proof (induction ds arbitrary: I q)
  case Nil
  then show ?case by simp
next
  case (Cons d ds)
  obtain r c t where c: "cur = (r, c, t)" by (cases cur)
  obtain dr dc where d: "d = (dr, dc)" by (cases d)
  from Cons.prems(1) d have "(dr, dc) \<in> set directions" by simp
  from relax_step [OF si G Cons.prems(2) Cons.prems(3) [unfolded c] this]
  obtain I1 q1 where 1: "relax G si R C cur d (I, q) = Inr (I1, q1)"
    and inv1: "spread_inv G si R C I1 q1" and cur1: "entry_ok si R C I1 cur"
    and m1: "(I1 = I \<and> q1 = q) \<or> (I1, I) \<in> ice_less"
    unfolding c d by blast
  from Cons.prems(1) have "set ds \<subseteq> set directions" by simp
  from Cons.IH [OF this inv1 cur1]
  obtain I' q' where 2: "relax_all G si R C cur ds (I1, q1) = Inr (I', q')"
    and inv': "spread_inv G si R C I' q'"
    and m2: "(I' = I1 \<and> q' = q1) \<or> (I', I1) \<in> ice_less"
    by blast
  from 1 2 have "relax_all G si R C cur (d # ds) (I, q) = Inr (I', q')" by simp
  moreover from m1 m2 have "(I' = I \<and> q' = q) \<or> (I', I) \<in> ice_less"
    using trans_ice_less by (auto dest: transD)
  ultimately show ?case using inv' by blast
qed

lemma attempted_dirs_subset: "set (fst (attempted_dirs g)) \<subseteq> set directions"
proof -
  obtain d1 d2 d3 d4 where a: "fst (attempted_dirs g) = [d1, d2, d3]"
    and m: "mset [d1, d2, d3, d4] = mset directions"
    using attempted_dirs_perm by blast
  from m have "set [d1, d2, d3, d4] = set directions" by (rule mset_eq_setD)
  with a show ?thesis by auto
qed

definition spread_less :: "((ice \<times> entry list) \<times> (ice \<times> entry list)) set" where
  "spread_less = ice_less <*lex*> measure length"

lemma wf_spread_less: "wf spread_less"
  unfolding spread_less_def by (intro wf_lex_prod wf_ice_less wf_measure)

lemma spread_loop_total:
  assumes si: "1 \<le> si" and G: "rect G R C"
  shows "spread_inv G si R C (fst s) (snd s) \<Longrightarrow>
     \<exists>I' g'. spread_loop G si R C (fst s) (snd s) g = Some (Inr (I', g'))
        \<and> spread_inv G si R C I' []"
proof (induction s arbitrary: g rule: wf_induct_rule [OF wf_spread_less])
  case (1 s)
  obtain I q where s: "s = (I, q)" by (cases s)
  show ?case
  proof (cases q)
    case Nil
    with 1(2) s show ?thesis by (subst spread_loop.simps) simp
  next
    case (Cons cur rest)
    obtain ds g1 where a: "attempted_dirs g = (ds, g1)" by (cases "attempted_dirs g")
    with attempted_dirs_subset [of g] have ds: "set ds \<subseteq> set directions" by simp
    from 1(2) s Cons have inv: "spread_inv G si R C I rest" and cur: "entry_ok si R C I cur"
      by (auto simp: spread_inv_def)
    from relax_all_step [OF si G ds inv cur]
    obtain I1 q1 where r: "relax_all G si R C cur ds (I, rest) = Inr (I1, q1)"
      and inv1: "spread_inv G si R C I1 q1"
      and m: "(I1 = I \<and> q1 = rest) \<or> (I1, I) \<in> ice_less"
      by blast
    from m s Cons have "((I1, q1), s) \<in> spread_less" by (auto simp: spread_less_def)
    from 1(1) [OF this, of g1] inv1
    obtain I' g' where "spread_loop G si R C I1 q1 g1 = Some (Inr (I', g'))"
      and "spread_inv G si R C I' []"
      by auto
    moreover have "spread_loop G si R C I q g = spread_loop G si R C I1 q1 g1"
      using Cons a r by (subst spread_loop.simps) simp
    ultimately show ?thesis using s by auto
  qed
qed

lemma set_cells: "set (cells R C) = {(r, c). r < R \<and> c < C}"
  by (auto simp: cells_def)

lemma cell_nat: "cell m (int r, int c) = m ! r ! c"
  by (simp add: cell_def)

lemma seed_scan_result:
  assumes G: "rect G R C"
  shows "\<forall>(r, c) \<in> set ps. r < R \<and> c < C \<Longrightarrow> rect I R C \<Longrightarrow>
     \<exists>I' q'. seed_scan G ps (I, q) = Inr (I', q') \<and> rect I' R C
       \<and> (\<forall>p. inb R C p \<longrightarrow>
            cell I' p = (if (nat (fst p), nat (snd p)) \<in> set ps \<and> cell G p = CHR ''I''
                         then PInt 0 else cell I p))
       \<and> set q' = set q \<union> {(int r, int c, 0) | r c. (r, c) \<in> set ps \<and> G ! r ! c = CHR ''I''}"
proof (induction ps arbitrary: I q)
  case Nil
  then show ?case by simp
next
  case (Cons x ps)
  obtain r c where x: "x = (r, c)" by (cases x)
  from Cons.prems(1) x have rc: "r < R" "c < C" and ps: "\<forall>(r, c) \<in> set ps. r < R \<and> c < C"
    by auto
  have p: "inb R C (int r, int c)" using rc by (simp add: inb_def)
  have g: "get2 G r c = Inr (G ! r ! c)" using G rc by (rule get2_rect)
  show ?case
  proof (cases "G ! r ! c = CHR ''I''")
    case False
    from Cons.IH [OF ps Cons.prems(2), of q]
    obtain I' q' where 1: "seed_scan G ps (I, q) = Inr (I', q')" and 2: "rect I' R C"
      and 3: "\<And>p. inb R C p \<Longrightarrow>
            cell I' p = (if (nat (fst p), nat (snd p)) \<in> set ps \<and> cell G p = CHR ''I''
                         then PInt 0 else cell I p)"
      and 4: "set q' = set q \<union> {(int r, int c, 0) | r c. (r, c) \<in> set ps \<and> G ! r ! c = CHR ''I''}"
      by blast
    have "seed_scan G (x # ps) (I, q) = Inr (I', q')" using 1 g False x by simp
    moreover have "cell I' u = (if (nat (fst u), nat (snd u)) \<in> set (x # ps) \<and> cell G u = CHR ''I''
                         then PInt 0 else cell I u)" if "inb R C u" for u
      using 3 [OF that] False x by (auto simp: cell_def)
    moreover have "set q' = set q \<union>
        {(int r, int c, 0) | r c. (r, c) \<in> set (x # ps) \<and> G ! r ! c = CHR ''I''}"
      using 4 False x by auto
    ultimately show ?thesis using 2 by blast
  next
    case True
    let ?I1 = "put I (int r, int c) (PInt 0)"
    let ?q1 = "q @ [(int r, int c, 0)]"
    have s: "set2 I r c (PInt 0) = Inr ?I1"
      using set2_put [OF Cons.prems(2) p, of "PInt 0"] by simp
    have I1: "rect ?I1 R C" using Cons.prems(2) by (rule rect_put)
    from Cons.IH [OF ps I1, of ?q1]
    obtain I' q' where 1: "seed_scan G ps (?I1, ?q1) = Inr (I', q')" and 2: "rect I' R C"
      and 3: "\<And>p. inb R C p \<Longrightarrow>
            cell I' p = (if (nat (fst p), nat (snd p)) \<in> set ps \<and> cell G p = CHR ''I''
                         then PInt 0 else cell ?I1 p)"
      and 4: "set q' = set ?q1 \<union> {(int r, int c, 0) | r c. (r, c) \<in> set ps \<and> G ! r ! c = CHR ''I''}"
      by blast
    have "seed_scan G (x # ps) (I, q) = Inr (I', q')" using 1 g s True x by simp
    moreover have "cell I' u = (if (nat (fst u), nat (snd u)) \<in> set (x # ps) \<and> cell G u = CHR ''I''
                         then PInt 0 else cell I u)" if u: "inb R C u" for u
    proof -
      have e: "(nat (fst u), nat (snd u)) = (r, c) \<longleftrightarrow> u = (int r, int c)"
        using u by (cases u) (auto simp: inb_def)
      have "cell G (int r, int c) = CHR ''I''" using True by (simp add: cell_def)
      then show ?thesis
        using 3 [OF u] cell_put [OF Cons.prems(2) p u, of "PInt 0"] e x by auto
    qed
    moreover have "set q' = set q \<union>
        {(int r, int c, 0) | r c. (r, c) \<in> set (x # ps) \<and> G ! r ! c = CHR ''I''}"
      using 4 True x by auto
    ultimately show ?thesis using 2 by blast
  qed
qed

lemma cell_replicate: "inb R C p \<Longrightarrow> cell (replicate R (replicate C x)) p = x"
  by (auto simp: cell_def inb_def)

lemma compute_ice_times_inv:
  assumes si: "1 \<le> si" and d: "dims G = Inr (R, C)" and G: "rect G R C"
  shows "\<exists>I g'. compute_ice_times G si g = Some (Inr (I, g')) \<and> spread_inv G si R C I []"
proof -
  let ?I0 = "replicate R (replicate C PInf)"
  have ps: "\<forall>(r, c) \<in> set (cells R C). r < R \<and> c < C" by (simp add: set_cells)
  from seed_scan_result [OF G ps rect_replicate, of PInf "[]"]
  obtain I1 q1 where 1: "seed_scan G (cells R C) (?I0, []) = Inr (I1, q1)" and 2: "rect I1 R C"
    and 3: "\<And>p. inb R C p \<Longrightarrow>
          cell I1 p = (if (nat (fst p), nat (snd p)) \<in> set (cells R C) \<and> cell G p = CHR ''I''
                       then PInt 0 else cell ?I0 p)"
    and 4: "set q1 = set [] \<union> {(int r, int c, 0) | r c. (r, c) \<in> set (cells R C) \<and> G ! r ! c = CHR ''I''}"
    by blast
  have c1: "cell I1 p = (if cell G p = CHR ''I'' then PInt 0 else PInf)" if "inb R C p" for p
  proof -
    from that have "(nat (fst p), nat (snd p)) \<in> set (cells R C)"
      by (auto simp: set_cells inb_def)
    with 3 [OF that] cell_replicate [OF that, of PInf] show ?thesis by simp
  qed
  have "cell_ok G si R C I1 p" if "inb R C p" for p
    using c1 [OF that] by (simp add: cell_ok_def)
  moreover have "entry_ok si R C I1 e" if "e \<in> set q1" for e
  proof -
    from that 4 obtain r c where e: "e = (int r, int c, 0)" and rc: "r < R" "c < C"
      and s: "G ! r ! c = CHR ''I''"
      by (auto simp: set_cells)
    have p: "inb R C (int r, int c)" using rc by (simp add: inb_def)
    from c1 [OF p] s have "cell I1 (int r, int c) = PInt 0" by (simp add: cell_def)
    with e p show ?thesis by (simp add: entry_ok_def)
  qed
  ultimately have inv: "spread_inv G si R C (fst (I1, q1)) (snd (I1, q1))"
    using 2 by (simp add: spread_inv_def list_all_iff)
  from spread_loop_total [OF si G inv, of g]
  obtain I' g' where "spread_loop G si R C I1 q1 g = Some (Inr (I', g'))"
    and "spread_inv G si R C I' []"
    by auto
  with 1 d show ?thesis by (simp add: compute_ice_times_def)
qed

section \<open>Properties of the generated layout\<close>

text \<open>
  The seed cells of a grid in row-major order, and the cells of the base layout that the
  spec allows a seed on: open in the base layout, in the right half (columns 5 to 9),
  not the start, not the exit, not in the 3 by 3 zone at the start corner.
\<close>

definition seed_cells :: "grid \<Rightarrow> (nat \<times> nat) list" where
  "seed_cells G = filter (\<lambda>(r, c). G ! r ! c = CHR ''I'') (cells (length G) (length (G ! 0)))"

definition eligible :: "nat \<times> nat \<Rightarrow> bool" where
  "eligible p = (case p of (r, c) \<Rightarrow>
     r < 10 \<and> 5 \<le> c \<and> c < 10 \<and> base_grid ! r ! c = CHR ''.''
     \<and> (r, c) \<noteq> (0, 0) \<and> (r, c) \<noteq> (0, 9) \<and> \<not> (r < 3 \<and> c < 3))"

lemma possible_positions_eligible: "list_all eligible (possible_positions base_grid 10 10)"
  by code_simp

lemma possible_positions_distinct: "distinct (possible_positions base_grid 10 10)"
  by code_simp

lemma possible_positions_length: "length (possible_positions base_grid 10 10) = 47"
  by code_simp

lemma base_grid_rect: "rect base_grid 10 10"
  by code_simp

lemma base_grid_dims: "length base_grid = 10" "length (base_grid ! 0) = 10"
  by code_simp+

lemma base_grid_no_ice: "list_all (list_all (\<lambda>ch. ch \<noteq> CHR ''I'')) base_grid"
  by code_simp

lemma place_ice_result:
  "rect G R C \<Longrightarrow> \<forall>(r, c) \<in> set ps. r < R \<and> c < C \<Longrightarrow>
     rect (place_ice ps G) R C
     \<and> (\<forall>r < R. \<forall>c < C. place_ice ps G ! r ! c = (if (r, c) \<in> set ps then CHR ''I'' else G ! r ! c))"
proof (induction ps arbitrary: G)
  case Nil
  then show ?case by simp
next
  case (Cons x ps)
  obtain r c where x: "x = (r, c)" by (cases x)
  let ?G1 = "G[r := (G ! r)[c := CHR ''I'']]"
  from Cons.prems x have rc: "r < R" "c < C" and ps: "\<forall>(r, c) \<in> set ps. r < R \<and> c < C"
    by auto
  have G1: "rect ?G1 R C" using Cons.prems(1) by (rule rect_update)
  from Cons.IH [OF G1 ps]
  have 1: "rect (place_ice ps ?G1) R C"
    and 2: "\<And>r' c'. r' < R \<Longrightarrow> c' < C \<Longrightarrow>
        place_ice ps ?G1 ! r' ! c' = (if (r', c') \<in> set ps then CHR ''I'' else ?G1 ! r' ! c')"
    by auto
  have "place_ice (x # ps) G ! r' ! c' = (if (r', c') \<in> set (x # ps) then CHR ''I'' else G ! r' ! c')"
    if "r' < R" "c' < C" for r' c'
    using 2 [OF that] nth_update2 [OF Cons.prems(1) rc that, of "CHR ''I''"] x by auto
  with 1 x show ?case by simp
qed

lemma generate_grid_seeds:
  "\<exists>seeds. fst (generate_grid g) = place_ice seeds base_grid
     \<and> distinct seeds \<and> list_all eligible seeds \<and> 3 \<le> length seeds \<and> length seeds \<le> 5"
proof -
  let ?pp = "possible_positions base_grid 10 10"
  obtain n g1 where n: "randint 3 5 g = (n, g1)" by (cases "randint 3 5 g")
  obtain sh g2 where sh: "shuffle ?pp g1 = (sh, g2)" by (cases "shuffle ?pp g1")
  let ?seeds = "take (min (nat n) (length sh)) sh"
  have "n = 3 + int (g 0 mod 3)" using n by (auto simp: randint_def randbelow_def)
  then have n35: "3 \<le> nat n" "nat n \<le> 5" by auto
  from shuffle_mset [of ?pp g1] sh have m: "mset sh = mset ?pp" by simp
  have len: "length sh = 47" using mset_eq_length [OF m] possible_positions_length by simp
  have dist: "distinct sh" using m possible_positions_distinct mset_eq_imp_distinct_iff by blast
  have "set sh = set ?pp" using m by (rule mset_eq_setD)
  then have el: "list_all eligible sh" using possible_positions_eligible by (simp add: list_all_iff)
  have "fst (generate_grid g) = place_ice ?seeds base_grid"
    using n sh by (simp add: generate_grid_def base_grid_dims)
  moreover have "distinct ?seeds" using dist by simp
  moreover have "list_all eligible ?seeds"
    using el by (auto simp: list_all_iff dest: in_set_takeD)
  moreover have "length ?seeds = nat n" using len n35 by simp
  ultimately show ?thesis using n35 by (intro exI [of _ ?seeds]) simp
qed

text \<open>
  The session initialisation of the script (source lines 145 to 153): generate the grid,
  calibrate with the default budget 15, and stop with an error when the start cell is
  frozen at time 0.
\<close>

datatype init_result = FrozenAtStart | Ready grid ice int

definition initialise :: "rng \<Rightarrow> (error + (init_result \<times> rng)) option" where
  "initialise g =
     (case generate_grid g of
        (grid, g1) \<Rightarrow>
          (case generate_balanced_ice grid 15 g1 of
             None \<Rightarrow> None
           | Some (Inl e) \<Rightarrow> Some (Inl e)
           | Some (Inr ((ice_time, interval), g2)) \<Rightarrow>
               (case get2 ice_time 0 0 of
                  Inl e \<Rightarrow> Some (Inl e)
                | Inr t \<Rightarrow>
                    if num_le t 0 then Some (Inr (FrozenAtStart, g2))
                    else Some (Inr (Ready grid ice_time interval, g2)))))"

lemma distinct_cells: "distinct (cells R C)"
  by (simp add: cells_def distinct_product)

lemma eligible_in_range: "eligible (r, c) \<Longrightarrow> r < 10 \<and> c < 10"
  by (simp add: eligible_def)

lemma generate_grid_cells:
  "\<exists>seeds. distinct seeds \<and> list_all eligible seeds \<and> 3 \<le> length seeds \<and> length seeds \<le> 5
     \<and> rect (fst (generate_grid g)) 10 10
     \<and> (\<forall>r < 10. \<forall>c < 10. fst (generate_grid g) ! r ! c =
           (if (r, c) \<in> set seeds then CHR ''I'' else base_grid ! r ! c))"
proof -
  from generate_grid_seeds [of g]
  obtain seeds where G: "fst (generate_grid g) = place_ice seeds base_grid"
    and s: "distinct seeds" "list_all eligible seeds" "3 \<le> length seeds" "length seeds \<le> 5"
    by blast
  from s(2) have "\<forall>(r, c) \<in> set seeds. r < 10 \<and> c < 10"
    by (auto simp: list_all_iff dest: eligible_in_range)
  from place_ice_result [OF base_grid_rect this] G s show ?thesis by auto
qed

lemma base_grid_cell_no_ice: "r < 10 \<Longrightarrow> c < 10 \<Longrightarrow> base_grid ! r ! c \<noteq> CHR ''I''"
  using base_grid_no_ice base_grid_rect
  by (auto simp: list_all_length rect_def)

lemma generate_grid_seed_cells:
  "\<exists>seeds. distinct seeds \<and> list_all eligible seeds \<and> 3 \<le> length seeds \<and> length seeds \<le> 5
     \<and> set (seed_cells (fst (generate_grid g))) = set seeds
     \<and> distinct (seed_cells (fst (generate_grid g)))"
proof -
  let ?G = "fst (generate_grid g)"
  from generate_grid_cells [of g]
  obtain seeds where s: "distinct seeds" "list_all eligible seeds" "3 \<le> length seeds"
      "length seeds \<le> 5"
    and G: "rect ?G 10 10"
    and c: "\<And>r c. r < 10 \<Longrightarrow> c < 10 \<Longrightarrow>
        ?G ! r ! c = (if (r, c) \<in> set seeds then CHR ''I'' else base_grid ! r ! c)"
    by blast
  from G have l: "length ?G = 10" "length (?G ! 0) = 10"
    by (auto simp: rect_def list_all_length)
  have sc: "seed_cells ?G = filter (\<lambda>(r, c). ?G ! r ! c = CHR ''I'') (cells 10 10)"
    by (simp add: seed_cells_def l)
  have "set (seed_cells ?G) = set seeds"
  proof (intro set_eqI iffI)
    fix p assume "p \<in> set (seed_cells ?G)"
    then obtain r c where p: "p = (r, c)" "r < 10" "c < 10" "?G ! r ! c = CHR ''I''"
      unfolding sc by (auto simp: set_cells)
    with c [of r c] base_grid_cell_no_ice [of r c] show "p \<in> set seeds"
      by (auto split: if_splits)
  next
    fix p assume ps: "p \<in> set seeds"
    obtain r c where p: "p = (r, c)" by (cases p)
    with ps s(2) have rc: "r < 10" "c < 10"
      by (auto simp: list_all_iff dest: eligible_in_range)
    with c [of r c] ps p show "p \<in> set (seed_cells ?G)"
      unfolding sc by (auto simp: set_cells)
  qed
  moreover have "distinct (seed_cells ?G)" unfolding sc using distinct_cells by simp
  ultimately show ?thesis using s by blast
qed

text \<open>
  Claim C6. For every sequence of random draws, the generated grid is 10 by 10 and holds
  between 3 and 5 seed cells (the base layout has 47 eligible cells, so never fewer than
  3), and every seed cell is eligible: in columns 5 to 9, open in the base layout, and
  neither the start, nor the exit, nor inside the 3 by 3 zone at the start corner.
\<close>

theorem generate_grid_seed_placement:
  "rect (fst (generate_grid g)) 10 10
   \<and> 3 \<le> length (seed_cells (fst (generate_grid g)))
   \<and> length (seed_cells (fst (generate_grid g))) \<le> 5
   \<and> list_all eligible (seed_cells (fst (generate_grid g)))"
proof -
  let ?G = "fst (generate_grid g)"
  from generate_grid_seed_cells [of g]
  obtain seeds where s: "distinct seeds" "list_all eligible seeds" "3 \<le> length seeds"
      "length seeds \<le> 5"
    and e: "set (seed_cells ?G) = set seeds" and d: "distinct (seed_cells ?G)"
    by blast
  have "length (seed_cells ?G) = card (set (seed_cells ?G))"
    using d by (simp add: distinct_card)
  also have "\<dots> = length seeds" using e s(1) by (simp add: distinct_card)
  finally have "length (seed_cells ?G) = length seeds" .
  moreover have "list_all eligible (seed_cells ?G)" using s(2) e by (simp add: list_all_iff)
  moreover have "rect ?G 10 10" using generate_grid_cells [of g] by blast
  ultimately show ?thesis using s by simp
qed

lemma generate_grid_start:
  "dims (fst (generate_grid g)) = Inr (10, 10) \<and> rect (fst (generate_grid g)) 10 10
   \<and> fst (generate_grid g) ! 0 ! 0 = CHR ''.''"
proof -
  let ?G = "fst (generate_grid g)"
  from generate_grid_cells [of g]
  obtain seeds where s: "list_all eligible seeds"
    and G: "rect ?G 10 10"
    and c: "\<And>r c. r < 10 \<Longrightarrow> c < 10 \<Longrightarrow>
        ?G ! r ! c = (if (r, c) \<in> set seeds then CHR ''I'' else base_grid ! r ! c)"
    by blast
  have "(0, 0) \<notin> set seeds" using s by (auto simp: list_all_iff eligible_def)
  moreover have "base_grid ! 0 ! 0 = CHR ''.''" by code_simp
  ultimately have "?G ! 0 ! 0 = CHR ''.''" using c [of 0 0] by simp
  moreover have "dims ?G = Inr (10, 10)"
    using G by (cases ?G) (auto simp: dims_def rect_def)
  ultimately show ?thesis using G by simp
qed

lemma cell_ok_nat:
  assumes "spread_inv G si R C I q" and "r < R" and "c < C"
  shows "cell_ok G si R C I (int r, int c)"
  using assms by (auto simp: spread_inv_def inb_def)

section \<open>Claims about the freeze-time matrix\<close>

text \<open>
  Claim C3. For a rectangular grid and an interval of at least 1, \<^verbatim>\<open>compute_ice_times\<close>
  returns for every sequence of random draws, and in the returned matrix exactly the seed
  cells hold 0, wall cells hold infinity, and every other cell holds infinity or a finite
  value that is at least the interval (hence at least 1). A finite value at a cell that is
  not a seed was put there by the expansion: one of the four neighbours holds a finite
  time at least one interval earlier. So a cell the expansion never reaches stays at
  infinity.
\<close>

theorem freeze_time_validity:
  assumes "1 \<le> spread_interval" and "dims G = Inr (R, C)" and "rect G R C"
  shows "\<exists>I g'. compute_ice_times G spread_interval g = Some (Inr (I, g')) \<and> rect I R C
     \<and> (\<forall>r < R. \<forall>c < C.
          (I ! r ! c = PInt 0 \<longleftrightarrow> G ! r ! c = CHR ''I'')
          \<and> (G ! r ! c = CHR ''#'' \<longrightarrow> I ! r ! c = PInf)
          \<and> (G ! r ! c \<noteq> CHR ''I'' \<longrightarrow>
                I ! r ! c = PInf
                \<or> (\<exists>v. I ! r ! c = PInt v \<and> spread_interval \<le> v \<and> 1 \<le> v
                       \<and> fed_by spread_interval R C I (int r, int c) v)))"
proof -
  from compute_ice_times_inv [OF assms, of g]
  obtain I g' where c: "compute_ice_times G spread_interval g = Some (Inr (I, g'))"
    and inv: "spread_inv G spread_interval R C I []"
    by blast
  have "(I ! r ! c = PInt 0 \<longleftrightarrow> G ! r ! c = CHR ''I'')
          \<and> (G ! r ! c = CHR ''#'' \<longrightarrow> I ! r ! c = PInf)
          \<and> (G ! r ! c \<noteq> CHR ''I'' \<longrightarrow>
                I ! r ! c = PInf
                \<or> (\<exists>v. I ! r ! c = PInt v \<and> spread_interval \<le> v \<and> 1 \<le> v
                       \<and> fed_by spread_interval R C I (int r, int c) v))"
    if "r < R" "c < C" for r c
    using cell_ok_nat [OF inv that] assms(1)
    by (auto simp: cell_ok_def cell_nat split: if_splits pynum.splits)
  moreover have "rect I R C" using inv by (simp add: spread_inv_def)
  ultimately show ?thesis using c by blast
qed

text \<open>
  Claim C9. For a rectangular grid and an interval of at least 1, every finite entry of the
  returned matrix is \<open>k\<close> times the interval for a natural number \<open>k\<close>.
\<close>

theorem freeze_times_multiples:
  assumes "1 \<le> spread_interval" and "dims G = Inr (R, C)" and "rect G R C"
  shows "\<exists>I g'. compute_ice_times G spread_interval g = Some (Inr (I, g'))
     \<and> (\<forall>r < R. \<forall>c < C. \<forall>v. I ! r ! c = PInt v \<longrightarrow> (\<exists>k :: nat. v = int k * spread_interval))"
proof -
  from compute_ice_times_inv [OF assms, of g]
  obtain I g' where c: "compute_ice_times G spread_interval g = Some (Inr (I, g'))"
    and inv: "spread_inv G spread_interval R C I []"
    by blast
  have "\<exists>k :: nat. v = int k * spread_interval" if rc: "r < R" "c < C" and v: "I ! r ! c = PInt v"
    for r c v
  proof (cases "G ! r ! c = CHR ''I''")
    case True
    with cell_ok_nat [OF inv rc] v have "v = 0" by (simp add: cell_ok_def cell_nat)
    then show ?thesis by (intro exI [of _ 0]) simp
  next
    case False
    with cell_ok_nat [OF inv rc] v have "spread_interval \<le> v" and "spread_interval dvd v"
      by (simp_all add: cell_ok_def cell_nat)
    then obtain k where k: "v = spread_interval * k" by (auto simp: dvd_def)
    with \<open>spread_interval \<le> v\<close> assms(1) have "0 \<le> k"
      by (smt (verit) mult_le_0_iff zero_less_one)
    with k show ?thesis by (intro exI [of _ "nat k"]) (simp add: mult.commute)
  qed
  with c show ?thesis by blast
qed

text \<open>
  A 2 by 3 grid with one seed and one wall, interval 3: the loop returns the matrix shown,
  which has the properties of claim C3.
\<close>

theorem freeze_time_validity_witness:
  "\<exists>I g'. compute_ice_times [''I..'', ''.#.''] 3 (\<lambda>n. n) = Some (Inr (I, g'))
     \<and> I = [[PInt 0, PInt 3, PInt 6], [PInt 3, PInf, PInt 9]] \<and> rect I 2 3
     \<and> (\<forall>r < 2. \<forall>c < 3.
          (I ! r ! c = PInt 0 \<longleftrightarrow> [''I..'', ''.#.''] ! r ! c = CHR ''I'')
          \<and> ([''I..'', ''.#.''] ! r ! c = CHR ''#'' \<longrightarrow> I ! r ! c = PInf)
          \<and> ([''I..'', ''.#.''] ! r ! c \<noteq> CHR ''I'' \<longrightarrow>
                I ! r ! c = PInf
                \<or> (\<exists>v. I ! r ! c = PInt v \<and> 3 \<le> v \<and> 1 \<le> v
                       \<and> fed_by 3 2 3 I (int r, int c) v)))"
proof -
  have e: "map_option (map_sum id fst) (compute_ice_times [''I..'', ''.#.''] 3 (\<lambda>n. n))
      = Some (Inr [[PInt 0, PInt 3, PInt 6], [PInt 3, PInf, PInt 9]])"
    by code_simp
  have h: "(1 :: int) \<le> 3" "dims [''I..'', ''.#.''] = Inr (2, 3)" "rect [''I..'', ''.#.''] 2 3"
    by (simp_all add: dims_def rect_def)
  from freeze_time_validity [OF h, of "\<lambda>n. n"]
  obtain I g' where c: "compute_ice_times [''I..'', ''.#.''] 3 (\<lambda>n. n) = Some (Inr (I, g'))"
    and p: "rect I 2 3"
    and q: "\<forall>r < 2. \<forall>c < 3.
          (I ! r ! c = PInt 0 \<longleftrightarrow> [''I..'', ''.#.''] ! r ! c = CHR ''I'')
          \<and> ([''I..'', ''.#.''] ! r ! c = CHR ''#'' \<longrightarrow> I ! r ! c = PInf)
          \<and> ([''I..'', ''.#.''] ! r ! c \<noteq> CHR ''I'' \<longrightarrow>
                I ! r ! c = PInf
                \<or> (\<exists>v. I ! r ! c = PInt v \<and> 3 \<le> v \<and> 1 \<le> v
                       \<and> fed_by 3 2 3 I (int r, int c) v))"
    by blast
  from c e have "I = [[PInt 0, PInt 3, PInt 6], [PInt 3, PInf, PInt 9]]" by simp
  with c p q show ?thesis by blast
qed

text \<open>The same run for claim C9: every finite entry is a multiple of 3.\<close>

theorem freeze_times_multiples_witness:
  "\<exists>I g'. compute_ice_times [''I..'', ''.#.''] 3 (\<lambda>n. n) = Some (Inr (I, g'))
     \<and> I = [[PInt 0, PInt 3, PInt 6], [PInt 3, PInf, PInt 9]]
     \<and> (\<forall>r < 2. \<forall>c < 3. \<forall>v. I ! r ! c = PInt v \<longrightarrow> (\<exists>k :: nat. v = int k * 3))"
proof -
  have e: "map_option (map_sum id fst) (compute_ice_times [''I..'', ''.#.''] 3 (\<lambda>n. n))
      = Some (Inr [[PInt 0, PInt 3, PInt 6], [PInt 3, PInf, PInt 9]])"
    by code_simp
  have h: "(1 :: int) \<le> 3" "dims [''I..'', ''.#.''] = Inr (2, 3)" "rect [''I..'', ''.#.''] 2 3"
    by (simp_all add: dims_def rect_def)
  from freeze_times_multiples [OF h, of "\<lambda>n. n"]
  obtain I g' where c: "compute_ice_times [''I..'', ''.#.''] 3 (\<lambda>n. n) = Some (Inr (I, g'))"
    and q: "\<forall>r < 2. \<forall>c < 3. \<forall>v. I ! r ! c = PInt v \<longrightarrow> (\<exists>k :: nat. v = int k * 3)"
    by blast
  from c e have "I = [[PInt 0, PInt 3, PInt 6], [PInt 3, PInf, PInt 9]]" by simp
  with c q show ?thesis by blast
qed

text \<open>
  Claim C10. For every grid that \<^verbatim>\<open>generate_grid\<close> produces and every sequence of random
  draws, a matrix that \<^verbatim>\<open>generate_balanced_ice\<close> accepts holds at the start cell (0,0) either
  infinity or a finite time of at least 2, so the test \<^verbatim>\<open>ice_time[0][0] <= 0\<close> fails and
  the initialisation never takes the frozen-at-start branch.
\<close>

theorem start_never_frozen:
  "initialise g \<noteq> Some (Inr (FrozenAtStart, g'))
   \<and> (generate_balanced_ice (fst (generate_grid g0)) max_steps g1 = Some (Inr ((ice_time, interval), g2))
        \<longrightarrow> (\<exists>t. get2 ice_time 0 0 = Inr t \<and> \<not> num_le t 0
               \<and> (t = PInf \<or> (\<exists>v. t = PInt v \<and> 2 \<le> v))))"
proof -
  have main: "\<exists>t. get2 ice_time 0 0 = Inr t \<and> \<not> num_le t 0
               \<and> (t = PInf \<or> (\<exists>v. t = PInt v \<and> 2 \<le> v))"
    if a: "generate_balanced_ice (fst (generate_grid g0)) max_steps g1
        = Some (Inr ((ice_time, interval), g2))"
    for g0 max_steps g1 ice_time interval g2
  proof -
    let ?G = "fst (generate_grid g0)"
    from generate_grid_start [of g0]
    have d: "dims ?G = Inr (10, 10)" and G: "rect ?G 10 10" and s: "?G ! 0 ! 0 = CHR ''.''"
      by simp_all
    from balance_loop_result [OF a [unfolded generate_balanced_ice_def]]
    obtain gc where i: "2 \<le> interval"
      and c: "compute_ice_times ?G interval gc = Some (Inr (ice_time, g2))"
      by blast
    from i have "1 \<le> interval" by simp
    from compute_ice_times_inv [OF this d G, of gc] c
    have inv: "spread_inv ?G interval 10 10 ice_time []" by auto
    then have r: "rect ice_time 10 10" by (simp add: spread_inv_def)
    have g: "get2 ice_time 0 0 = Inr (ice_time ! 0 ! 0)" using r by (intro get2_rect) auto
    from cell_ok_nat [OF inv, of 0 0] s i
    have "ice_time ! 0 ! 0 = PInf \<or> (\<exists>v. ice_time ! 0 ! 0 = PInt v \<and> 2 \<le> v)"
      by (auto simp: cell_ok_def cell_def split: pynum.splits)
    with g show ?thesis by auto
  qed
  have "initialise g \<noteq> Some (Inr (FrozenAtStart, g'))"
  proof
    assume f: "initialise g = Some (Inr (FrozenAtStart, g'))"
    obtain grid ga where gg: "generate_grid g = (grid, ga)" by (cases "generate_grid g")
    from f gg obtain ice_time interval gb t
      where b: "generate_balanced_ice grid 15 ga = Some (Inr ((ice_time, interval), gb))"
        and t: "get2 ice_time 0 0 = Inr t" "num_le t 0"
      by (auto simp: initialise_def split: option.splits sum.splits prod.splits if_splits)
    from gg have "grid = fst (generate_grid g)" by simp
    with main [of g 15 ga ice_time interval gb] b t show False by auto
  qed
  with main show ?thesis by blast
qed

text \<open>
  With the draws 0, 1, 2, ... for both the layout and the calibration, the calibration
  accepts at interval 2, and the start cell is never frozen.
\<close>

theorem start_never_frozen_witness:
  "(\<exists>ice_time g2. generate_balanced_ice (fst (generate_grid (\<lambda>n. n))) 15 (\<lambda>n. n)
        = Some (Inr ((ice_time, 2), g2))
      \<and> get2 ice_time 0 0 = Inr PInf)"
proof -
  let ?r = "generate_balanced_ice (fst (generate_grid (\<lambda>n. n))) 15 (\<lambda>n. n)"
  have e: "map_option (map_sum id (\<lambda>x. (snd (fst x), get2 (fst (fst x)) 0 0))) ?r
      = Some (Inr (2, Inr PInf))"
    by code_simp
  then obtain x where x: "?r = Some x" by (cases ?r) auto
  with e obtain y where y: "x = Inr y" and y2: "snd (fst y) = 2" "get2 (fst (fst y)) 0 0 = Inr PInf"
    by (cases x) auto
  obtain ice_time i g2 where yy: "y = ((ice_time, i), g2)" by (cases y) auto
  with x y y2 have a: "?r = Some (Inr ((ice_time, 2), g2))" and b: "get2 ice_time 0 0 = Inr PInf"
    by simp_all
  from start_never_frozen [of _ _ "\<lambda>n. n" 15 "\<lambda>n. n" ice_time 2 g2] a b show ?thesis
    by blast
qed

section \<open>Correctness of the reachability search\<close>

text \<open>
  A cell can be entered at step \<open>k\<close> when it is inside the grid, not a wall, and \<open>k\<close> is
  strictly below its freeze time: the test of source lines 84 to 87 without the visited
  flag. \<open>reach p k\<close>: some walk from the start enters \<open>p\<close> at step \<open>k\<close>, every cell
  on it entered in time.
\<close>

definition enterable :: "grid \<Rightarrow> ice \<Rightarrow> nat \<Rightarrow> nat \<Rightarrow> int \<times> int \<Rightarrow> int \<Rightarrow> bool" where
  "enterable G I R C p k = (inb R C p \<and> cell G p \<noteq> CHR ''#'' \<and> int_lt k (cell I p))"

inductive reach :: "grid \<Rightarrow> ice \<Rightarrow> nat \<Rightarrow> nat \<Rightarrow> int \<times> int \<Rightarrow> int \<Rightarrow> bool"
  for G I R C where
  start: "reach G I R C (0, 0) 0"
| step: "reach G I R C p k \<Longrightarrow> adjacent p u \<Longrightarrow> enterable G I R C u (k + 1)
           \<Longrightarrow> reach G I R C u (k + 1)"

text \<open>
  The invariant of the search loop. Every queue entry is visited, is reached by a safe
  walk in exactly its step count, and by no shorter safe walk. The step counts in the
  queue are sorted and span at most two consecutive values. A visited cell that is
  no longer queued is not the exit and is closed: whatever a safe walk can enter from it
  is visited. \<open>bfs_mid\<close> is the same in the middle of an expansion, with the current
  entry taken off the queue and the directions in \<open>D\<close> already tried.
\<close>

definition vis :: "nat \<Rightarrow> nat \<Rightarrow> bool list list \<Rightarrow> int \<times> int \<Rightarrow> bool" where
  "vis R C V p = (inb R C p \<and> cell V p)"

definition entry_cell :: "entry \<Rightarrow> int \<times> int" where
  "entry_cell e = (case e of (r, c, s) \<Rightarrow> (r, c))"

definition entry_steps :: "entry \<Rightarrow> int" where
  "entry_steps e = (case e of (r, c, s) \<Rightarrow> s)"

definition closed_at :: "grid \<Rightarrow> ice \<Rightarrow> nat \<Rightarrow> nat \<Rightarrow> bool list list \<Rightarrow> int \<times> int \<Rightarrow> bool" where
  "closed_at G I R C V p =
     (\<forall>k u. reach G I R C p k \<and> adjacent p u \<and> enterable G I R C u (k + 1) \<longrightarrow> vis R C V u)"

definition entry_good :: "grid \<Rightarrow> ice \<Rightarrow> nat \<Rightarrow> nat \<Rightarrow> bool list list \<Rightarrow> entry \<Rightarrow> bool" where
  "entry_good G I R C V e =
     (vis R C V (entry_cell e) \<and> reach G I R C (entry_cell e) (entry_steps e)
      \<and> (\<forall>k. reach G I R C (entry_cell e) k \<longrightarrow> entry_steps e \<le> k))"

definition bfs_inv :: "grid \<Rightarrow> ice \<Rightarrow> nat \<Rightarrow> nat \<Rightarrow> bool list list \<Rightarrow> entry list \<Rightarrow> bool" where
  "bfs_inv G I R C V q =
     (rect V R C \<and> vis R C V (0, 0)
      \<and> (\<forall>e \<in> set q. entry_good G I R C V e)
      \<and> sorted (map entry_steps q)
      \<and> (\<forall>e \<in> set q. entry_steps e \<le> entry_steps (hd q) + 1)
      \<and> (\<forall>p. vis R C V p \<and> p \<notin> entry_cell ` set q \<longrightarrow>
             p \<noteq> (0, int C - 1) \<and> closed_at G I R C V p))"

definition bfs_mid ::
  "grid \<Rightarrow> ice \<Rightarrow> nat \<Rightarrow> nat \<Rightarrow> bool list list \<Rightarrow> entry list \<Rightarrow> entry \<Rightarrow> (int \<times> int) set \<Rightarrow> bool" where
  "bfs_mid G I R C V q cur D =
     (rect V R C \<and> vis R C V (0, 0)
      \<and> (\<forall>e \<in> set (cur # q). entry_good G I R C V e)
      \<and> sorted (map entry_steps q)
      \<and> (\<forall>e \<in> set q. entry_steps cur \<le> entry_steps e \<and> entry_steps e \<le> entry_steps cur + 1)
      \<and> (\<forall>p. vis R C V p \<and> p \<notin> entry_cell ` set (cur # q) \<longrightarrow>
             p \<noteq> (0, int C - 1) \<and> closed_at G I R C V p)
      \<and> entry_cell cur \<noteq> (0, int C - 1)
      \<and> (\<forall>d \<in> D. enterable G I R C
                     (fst (entry_cell cur) + fst d, snd (entry_cell cur) + snd d)
                     (entry_steps cur + 1)
                   \<longrightarrow> vis R C V (fst (entry_cell cur) + fst d, snd (entry_cell cur) + snd d)))"

lemma reach_nonneg: "reach G I R C p k \<Longrightarrow> 0 \<le> k"
  by (induction rule: reach.induct) auto

lemma int_lt_mono: "int_lt k t \<Longrightarrow> j \<le> k \<Longrightarrow> int_lt j t"
  by (cases t) auto

lemma enterable_mono: "enterable G I R C p k \<Longrightarrow> j \<le> k \<Longrightarrow> enterable G I R C p j"
  by (auto simp: enterable_def intro: int_lt_mono)

text \<open>Every cell that a safe walk reaches within the steps of the current entry is visited.\<close>

lemma frontier:
  assumes mid: "bfs_mid G I R C V q cur D"
  shows "reach G I R C p k \<Longrightarrow> k \<le> entry_steps cur \<Longrightarrow> vis R C V p"
proof (induction rule: reach.induct)
  case start
  from mid show ?case unfolding bfs_mid_def by blast
next
  case (step p k u)
  from step.prems have k: "k < entry_steps cur" by simp
  with step.IH have vp: "vis R C V p" by simp
  have notq: "p \<notin> entry_cell ` set (cur # q)"
  proof
    assume "p \<in> entry_cell ` set (cur # q)"
    then obtain e where e: "e \<in> set (cur # q)" and pe: "p = entry_cell e" by blast
    from mid e have "entry_good G I R C V e" unfolding bfs_mid_def by blast
    with step.hyps(1) pe have le: "entry_steps e \<le> k" by (simp add: entry_good_def)
    from mid e have "entry_steps cur \<le> entry_steps e" unfolding bfs_mid_def by auto
    with le k show False by simp
  qed
  from mid vp notq have "closed_at G I R C V p" unfolding bfs_mid_def by blast
  with step.hyps show ?case unfolding closed_at_def by blast
qed

lemma bfs_midD:
  assumes "bfs_mid G I R C V q cur D"
  shows "rect V R C" and "vis R C V (0, 0)"
    and "\<And>e. e \<in> set (cur # q) \<Longrightarrow> entry_good G I R C V e"
    and "sorted (map entry_steps q)"
    and "\<And>e. e \<in> set q \<Longrightarrow> entry_steps cur \<le> entry_steps e \<and> entry_steps e \<le> entry_steps cur + 1"
    and "\<And>p. vis R C V p \<Longrightarrow> p \<notin> entry_cell ` set (cur # q) \<Longrightarrow>
           p \<noteq> (0, int C - 1) \<and> closed_at G I R C V p"
    and "entry_cell cur \<noteq> (0, int C - 1)"
    and "\<And>d. d \<in> D \<Longrightarrow>
           enterable G I R C (fst (entry_cell cur) + fst d, snd (entry_cell cur) + snd d)
             (entry_steps cur + 1) \<Longrightarrow>
           vis R C V (fst (entry_cell cur) + fst d, snd (entry_cell cur) + snd d)"
  using assms unfolding bfs_mid_def by blast+

lemma bfs_invD:
  assumes "bfs_inv G I R C V q"
  shows "rect V R C" and "vis R C V (0, 0)"
    and "\<And>e. e \<in> set q \<Longrightarrow> entry_good G I R C V e"
    and "sorted (map entry_steps q)"
    and "\<And>e. e \<in> set q \<Longrightarrow> entry_steps e \<le> entry_steps (hd q) + 1"
    and "\<And>p. vis R C V p \<Longrightarrow> p \<notin> entry_cell ` set q \<Longrightarrow>
           p \<noteq> (0, int C - 1) \<and> closed_at G I R C V p"
  using assms unfolding bfs_inv_def by blast+

lemma bfs_pop:
  assumes inv: "bfs_inv G I R C V (cur # rest)" and ne: "entry_cell cur \<noteq> (0, int C - 1)"
  shows "bfs_mid G I R C V rest cur {}"
proof -
  note d = bfs_invD [OF inv]
  have s: "sorted (map entry_steps rest)" using d(4) by simp
  have b: "entry_steps cur \<le> entry_steps e \<and> entry_steps e \<le> entry_steps cur + 1"
    if "e \<in> set rest" for e
  proof -
    from d(4) that have "entry_steps cur \<le> entry_steps e" by auto
    moreover from d(5) [of e] that have "entry_steps e \<le> entry_steps cur + 1" by simp
    ultimately show ?thesis by simp
  qed
  show ?thesis
    unfolding bfs_mid_def
    using d(1) d(2) d(3) s b d(6) ne by blast
qed

lemma bfs_done:
  assumes mid: "bfs_mid G I R C V q cur (set directions)"
  shows "bfs_inv G I R C V q"
proof -
  note m = bfs_midD [OF mid]
  have cur: "entry_good G I R C V cur" using m(3) by simp
  have cl: "closed_at G I R C V (entry_cell cur)"
    unfolding closed_at_def
  proof (intro allI impI, elim conjE)
    fix k u
    assume r: "reach G I R C (entry_cell cur) k" and a: "adjacent (entry_cell cur) u"
      and e: "enterable G I R C u (k + 1)"
    from cur r have "entry_steps cur \<le> k" by (simp add: entry_good_def)
    with e have e': "enterable G I R C u (entry_steps cur + 1)"
      by (intro enterable_mono [OF e]) simp
    from a have "adjacent u (entry_cell cur)" by (simp add: adjacent_sym)
    then obtain d where d: "d \<in> set directions"
      and u: "u = (fst (entry_cell cur) + fst d, snd (entry_cell cur) + snd d)"
      using adjacent_directions by blast
    from m(8) [OF d] e' u show "vis R C V u" by simp
  qed
  have h: "entry_steps e \<le> entry_steps (hd q) + 1" if "e \<in> set q" for e
  proof -
    from that have "q \<noteq> []" by auto
    then have "hd q \<in> set q" by simp
    from m(5) [OF this] m(5) [OF that] show ?thesis by linarith
  qed
  have c: "p \<noteq> (0, int C - 1) \<and> closed_at G I R C V p"
    if v: "vis R C V p" and n: "p \<notin> entry_cell ` set q" for p
  proof (cases "p = entry_cell cur")
    case True
    with cl m(7) show ?thesis by simp
  next
    case False
    with n have "p \<notin> entry_cell ` set (cur # q)" by simp
    from m(6) [OF v this] show ?thesis .
  qed
  have g: "entry_good G I R C V e" if "e \<in> set q" for e using m(3) [of e] that by simp
  show ?thesis
    unfolding bfs_inv_def using m(1) m(2) g m(4) h c by blast
qed

lemma vis_put:
  assumes "rect V R C" and "inb R C u"
  shows "vis R C (put V u True) p = (p = u \<or> vis R C V p)"
  using cell_put [OF assms, of p True] assms(2) by (auto simp: vis_def)

lemma closed_at_mono:
  assumes "closed_at G I R C V p" and "\<And>u. vis R C V u \<Longrightarrow> vis R C V' u"
  shows "closed_at G I R C V' p"
  using assms unfolding closed_at_def by blast

lemma entry_good_mono:
  assumes "entry_good G I R C V e" and "\<And>u. vis R C V u \<Longrightarrow> vis R C V' u"
  shows "entry_good G I R C V' e"
  using assms unfolding entry_good_def by blast

lemma try_visit_step:
  assumes G: "rect G R C" and I: "rect I R C" and mid: "bfs_mid G I R C V q cur D"
    and d: "d \<in> set directions"
  shows "\<exists>V' q'. try_visit G I R C cur d (V, q) = Inr (V', q')
           \<and> bfs_mid G I R C V' q' cur (insert d D)"
proof -
  obtain r c s where cur: "cur = (r, c, s)" by (cases cur)
  obtain dr dc where dd: "d = (dr, dc)" by (cases d)
  let ?u = "(r + dr, c + dc)"
  note m = bfs_midD [OF mid]
  have ec: "entry_cell cur = (r, c)" and es: "entry_steps cur = s"
    by (simp_all add: cur entry_cell_def entry_steps_def)
  have tgt: "(fst (entry_cell cur) + fst d, snd (entry_cell cur) + snd d) = ?u"
    by (simp add: ec dd)
  show ?thesis
  proof (cases "inb R C ?u \<and> \<not> cell V ?u \<and> cell G ?u \<noteq> CHR ''#'' \<and> int_lt (s + 1) (cell I ?u)")
    case False
    have res: "try_visit G I R C cur d (V, q) = Inr (V, q)"
    proof (cases "inb R C ?u")
      case False
      then show ?thesis by (auto simp: cur dd inb_def Let_def)
    next
      case True
      then have b: "0 \<le> r + dr \<and> r + dr < int R \<and> 0 \<le> c + dc \<and> c + dc < int C"
        by (simp add: inb_def)
      from \<open>\<not> (inb R C ?u \<and> \<not> cell V ?u \<and> cell G ?u \<noteq> CHR ''#'' \<and> int_lt (s + 1) (cell I ?u))\<close> True
      have "cell V ?u \<or> cell G ?u = CHR ''#'' \<or> \<not> int_lt (s + 1) (cell I ?u)" by blast
      then show ?thesis
        using b get2_inb [OF m(1) True] get2_inb [OF G True] get2_inb [OF I True]
        by (auto simp: cur dd Let_def)
    qed
    have new: "vis R C V ?u" if "enterable G I R C ?u (s + 1)"
      using that False by (auto simp: enterable_def vis_def)
    have "bfs_mid G I R C V q cur (insert d D)"
      unfolding bfs_mid_def
    proof (intro conjI ballI impI)
      fix d' assume d': "d' \<in> insert d D"
        and e: "enterable G I R C (fst (entry_cell cur) + fst d', snd (entry_cell cur) + snd d')
                  (entry_steps cur + 1)"
      show "vis R C V (fst (entry_cell cur) + fst d', snd (entry_cell cur) + snd d')"
      proof (cases "d' = d")
        case True
        with e new show ?thesis by (simp add: tgt es)
      next
        case False
        with d' have "d' \<in> D" by simp
        from m(8) [OF this e] show ?thesis .
      qed
    qed (use m in \<open>auto\<close>)
    with res show ?thesis by blast
  next
    case True
    then have u: "inb R C ?u" and nv: "\<not> cell V ?u" and nw: "cell G ?u \<noteq> CHR ''#''"
      and lt: "int_lt (s + 1) (cell I ?u)"
      by simp_all
    let ?V' = "put V ?u True"
    let ?e' = "(r + dr, c + dc, s + 1)"
    let ?q' = "q @ [?e']"
    from u have b: "0 \<le> r + dr \<and> r + dr < int R \<and> 0 \<le> c + dc \<and> c + dc < int C"
      by (simp add: inb_def)
    have res: "try_visit G I R C cur d (V, q) = Inr (?V', ?q')"
      using b nv nw lt get2_inb [OF m(1) u] get2_inb [OF G u] get2_inb [OF I u]
        set2_put [OF m(1) u, of True]
      by (simp add: cur dd Let_def)
    have mono: "vis R C ?V' p" if "vis R C V p" for p
      using that vis_put [OF m(1) u, of p] by simp
    have vu: "vis R C ?V' ?u" using vis_put [OF m(1) u, of ?u] by simp
    have ent: "enterable G I R C ?u (s + 1)" using u nw lt by (simp add: enterable_def)
    from m(3) [of cur] have cg: "entry_good G I R C V cur" by simp
    then have rc: "reach G I R C (r, c) s" by (simp add: entry_good_def ec es)
    have adj: "adjacent (r, c) ?u"
      using directions_adjacent [OF d, of r c] by (simp add: dd adjacent_sym)
    have ru: "reach G I R C ?u (s + 1)" using rc adj ent by (rule reach.step)
    have opt: "s + 1 \<le> k" if "reach G I R C ?u k" for k
    proof (rule ccontr)
      assume "\<not> s + 1 \<le> k"
      then have "k \<le> entry_steps cur" by (simp add: es)
      from frontier [OF mid that this] nv show False by (simp add: vis_def)
    qed
    have ece: "entry_cell ?e' = ?u" and ese: "entry_steps ?e' = s + 1"
      by (simp_all add: entry_cell_def entry_steps_def)
    have ge: "entry_good G I R C ?V' ?e'"
      unfolding entry_good_def ece ese using vu ru opt by blast
    have good: "entry_good G I R C ?V' e" if "e \<in> set (cur # ?q')" for e
    proof (cases "e = ?e'")
      case True
      with ge show ?thesis by simp
    next
      case False
      with that have "e \<in> set (cur # q)" by auto
      from entry_good_mono [OF m(3) [OF this] mono] show ?thesis .
    qed
    have srt: "sorted (map entry_steps ?q')"
      using m(4) m(5) by (auto simp: sorted_append ese es)
    have bnd: "entry_steps cur \<le> entry_steps e \<and> entry_steps e \<le> entry_steps cur + 1"
      if "e \<in> set ?q'" for e
    proof (cases "e = ?e'")
      case True
      then show ?thesis by (simp add: ese es)
    next
      case False
      with that have "e \<in> set q" by auto
      from m(5) [OF this] show ?thesis .
    qed
    have cl: "p \<noteq> (0, int C - 1) \<and> closed_at G I R C ?V' p"
      if v: "vis R C ?V' p" and n: "p \<notin> entry_cell ` set (cur # ?q')" for p
    proof -
      from n have "p \<noteq> entry_cell ?e'" by auto
      then have "p \<noteq> ?u" by (simp add: ece)
      with v vis_put [OF m(1) u, of p] have vp: "vis R C V p" by simp
      from n have "p \<notin> entry_cell ` set (cur # q)" by auto
      from m(6) [OF vp this] closed_at_mono [OF _ mono] show ?thesis by blast
    qed
    have dn: "vis R C ?V' (fst (entry_cell cur) + fst d', snd (entry_cell cur) + snd d')"
      if d': "d' \<in> insert d D"
        and e: "enterable G I R C (fst (entry_cell cur) + fst d', snd (entry_cell cur) + snd d')
                  (entry_steps cur + 1)" for d'
    proof (cases "d' = d")
      case True
      with vu show ?thesis by (simp add: tgt)
    next
      case False
      with d' have "d' \<in> D" by simp
      from mono [OF m(8) [OF this e]] show ?thesis .
    qed
    have "bfs_mid G I R C ?V' ?q' cur (insert d D)"
      unfolding bfs_mid_def
      using rect_put [OF m(1), of ?u True] mono [OF m(2)] good srt bnd cl m(7) dn
      by blast
    with res show ?thesis by blast
  qed
qed

lemma visit_all_step:
  assumes G: "rect G R C" and I: "rect I R C"
  shows "set ds \<subseteq> set directions \<Longrightarrow> bfs_mid G I R C V q cur D \<Longrightarrow>
     \<exists>V' q'. visit_all G I R C cur ds (V, q) = Inr (V', q')
        \<and> bfs_mid G I R C V' q' cur (D \<union> set ds)"
proof (induction ds arbitrary: V q D)
  case Nil
  then show ?case by simp
next
  case (Cons d ds)
  from Cons.prems(1) have d: "d \<in> set directions" and ds: "set ds \<subseteq> set directions" by auto
  from try_visit_step [OF G I Cons.prems(2) d]
  obtain V1 q1 where 1: "try_visit G I R C cur d (V, q) = Inr (V1, q1)"
    and m1: "bfs_mid G I R C V1 q1 cur (insert d D)"
    by blast
  from Cons.IH [OF ds m1]
  obtain V' q' where 2: "visit_all G I R C cur ds (V1, q1) = Inr (V', q')"
    and m2: "bfs_mid G I R C V' q' cur (insert d D \<union> set ds)"
    by blast
  have "insert d D \<union> set ds = D \<union> set (d # ds)" by auto
  with 1 2 m2 show ?case by simp
qed

text \<open>What the search returns, in terms of \<open>reach\<close>.\<close>

definition bfs_post :: "grid \<Rightarrow> ice \<Rightarrow> nat \<Rightarrow> nat \<Rightarrow> error + int option \<Rightarrow> bool" where
  "bfs_post G I R C res =
     (case res of
        Inl e \<Rightarrow> False
      | Inr None \<Rightarrow> (\<forall>k. \<not> reach G I R C (0, int C - 1) k)
      | Inr (Some n) \<Rightarrow>
          reach G I R C (0, int C - 1) n \<and> (\<forall>k. reach G I R C (0, int C - 1) k \<longrightarrow> n \<le> k))"

lemma all_reached_visited:
  assumes inv: "bfs_inv G I R C V []"
  shows "reach G I R C p k \<Longrightarrow> vis R C V p"
proof (induction rule: reach.induct)
  case start
  from bfs_invD(2) [OF inv] show ?case .
next
  case (step p k u)
  from bfs_invD(6) [OF inv step.IH] have "closed_at G I R C V p" by simp
  with step.hyps show ?case unfolding closed_at_def by blast
qed

lemma bfs_loop_correct:
  "rect G R C \<Longrightarrow> rect I R C \<Longrightarrow> bfs_inv G I R C V q \<Longrightarrow>
     bfs_post G I R C (bfs_loop G I R C V q)"
proof (induction G I R C V q rule: bfs_loop.induct)
  case (1 G I R C visited)
  have "\<not> reach G I R C (0, int C - 1) k" for k
  proof
    assume "reach G I R C (0, int C - 1) k"
    from all_reached_visited [OF 1(3) this] bfs_invD(6) [OF 1(3), of "(0, int C - 1)"]
    show False by simp
  qed
  then show ?case by (simp add: bfs_post_def)
next
  case (2 G I R C visited r c steps rest)
  note G = 2(2) and I = 2(3) and inv = 2(4)
  have good: "entry_good G I R C visited (r, c, steps)"
    using bfs_invD(3) [OF inv, of "(r, c, steps)"] by simp
  show ?case
  proof (cases "(r, c) = (0, int C - 1)")
    case True
    with good show ?thesis
      by (simp add: bfs_post_def entry_good_def entry_cell_def entry_steps_def)
  next
    case False
    then have "entry_cell (r, c, steps) \<noteq> (0, int C - 1)" by (simp add: entry_cell_def)
    from bfs_pop [OF inv this]
    have mid: "bfs_mid G I R C visited rest (r, c, steps) {}" .
    from visit_all_step [OF G I subset_refl mid]
    obtain V' q' where v: "visit_all G I R C (r, c, steps) directions (visited, rest) = Inr (V', q')"
      and mid': "bfs_mid G I R C V' q' (r, c, steps) (set directions)"
      by auto
    from bfs_done [OF mid'] have inv': "bfs_inv G I R C V' q'" .
    from 2(1) [OF False v refl G I inv']
    have "bfs_post G I R C (bfs_loop G I R C V' q')" .
    moreover from False v
    have "bfs_loop G I R C visited ((r, c, steps) # rest) = bfs_loop G I R C V' q'"
      by auto
    ultimately show ?thesis by simp
  qed
qed

lemma bfs_inv_initial:
  assumes R: "1 \<le> R" and C: "1 \<le> C"
  shows "bfs_inv G I R C (put (replicate R (replicate C False)) (0, 0) True) [(0, 0, 0)]"
proof -
  let ?W = "replicate R (replicate C False)"
  let ?V = "put ?W (0, 0) True"
  have s: "inb R C (0, 0)" using R C by (simp add: inb_def)
  have r0: "rect ?W R C" by (rule rect_replicate)
  have v: "vis R C ?V p = (p = (0, 0))" for p
    using vis_put [OF r0 s, of p] cell_replicate [of R C p False] by (auto simp: vis_def)
  have g: "entry_good G I R C ?V (0, 0, 0)"
    unfolding entry_good_def
    by (auto simp: entry_cell_def entry_steps_def v intro: reach.start dest: reach_nonneg)
  show ?thesis
    unfolding bfs_inv_def using rect_put [OF r0, of "(0, 0)" True] g
    by (auto simp: v entry_cell_def)
qed

lemma find_shortest_reach:
  assumes d: "dims G = Inr (R, C)" and G: "rect G R C" and I: "rect I R C" and C: "1 \<le> C"
  shows "bfs_post G I R C (find_shortest_safe_steps G I)"
proof -
  from d have R: "1 \<le> R" by (cases G) (auto simp: dims_def)
  have s: "inb R C (0, 0)" using R C by (simp add: inb_def)
  let ?V = "put (replicate R (replicate C False)) (0, 0) True"
  have "set2 (replicate R (replicate C False)) 0 0 True = Inr ?V"
    using set2_put [OF rect_replicate s, of False True] by simp
  with d have "find_shortest_safe_steps G I = bfs_loop G I R C ?V [(0, 0, 0)]"
    by (simp add: find_shortest_safe_steps_def)
  with bfs_loop_correct [OF G I bfs_inv_initial [OF R C, of G I]] show ?thesis by simp
qed

text \<open>
  The paths of the spec: a list of cells from the start (0,0) to the exit (0,C-1), each
  cell 4-adjacent to the next and inside the grid, and every cell other than the start
  not a wall and entered strictly before its freeze time, where the cell at index \<open>k\<close>
  of the list is entered at step \<open>k\<close>. The start cell is where the player stands: it
  is not entered, and the search does not test it. The number of moves is the number of
  cells after the first.
\<close>

fun path_ok :: "grid \<Rightarrow> ice \<Rightarrow> nat \<Rightarrow> nat \<Rightarrow> int \<Rightarrow> (int \<times> int) list \<Rightarrow> bool" where
  "path_ok G I R C k [] = True"
| "path_ok G I R C k (p # ps) =
     (inb R C p \<and> (p = (0, 0) \<or> (cell G p \<noteq> CHR ''#'' \<and> int_lt k (cell I p)))
      \<and> (case ps of [] \<Rightarrow> True | u # _ \<Rightarrow> adjacent p u)
      \<and> path_ok G I R C (k + 1) ps)"

definition safe_path :: "grid \<Rightarrow> ice \<Rightarrow> nat \<Rightarrow> nat \<Rightarrow> (int \<times> int) list \<Rightarrow> bool" where
  "safe_path G I R C ps =
     (ps \<noteq> [] \<and> hd ps = (0, 0) \<and> last ps = (0, int C - 1) \<and> path_ok G I R C 0 ps)"

definition moves :: "(int \<times> int) list \<Rightarrow> int" where
  "moves ps = int (length ps) - 1"

lemma path_ok_snoc:
  "ps \<noteq> [] \<Longrightarrow>
     path_ok G I R C k (ps @ [u]) =
       (path_ok G I R C k ps \<and> adjacent (last ps) u \<and> inb R C u
        \<and> (u = (0, 0) \<or> (cell G u \<noteq> CHR ''#'' \<and> int_lt (k + int (length ps)) (cell I u))))"
proof (induction ps arbitrary: k)
  case Nil
  then show ?case by simp
next
  case (Cons p ps)
  show ?case
  proof (cases ps)
    case Nil
    have "path_ok G I R C k ([p] @ [u]) =
        (path_ok G I R C k [p] \<and> adjacent p u \<and> inb R C u
         \<and> (u = (0, 0) \<or> (cell G u \<noteq> CHR ''#'' \<and> int_lt (k + 1) (cell I u))))"
      by simp
    with Nil show ?thesis by simp
  next
    case c: (Cons p' ps')
    then have ne: "ps \<noteq> []" by simp
    have 1: "path_ok G I R C k ((p # ps) @ [u]) =
        (inb R C p \<and> (p = (0, 0) \<or> (cell G p \<noteq> CHR ''#'' \<and> int_lt k (cell I p)))
         \<and> adjacent p p' \<and> path_ok G I R C (k + 1) (ps @ [u]))"
      using c by simp
    have 2: "path_ok G I R C k (p # ps) =
        (inb R C p \<and> (p = (0, 0) \<or> (cell G p \<noteq> CHR ''#'' \<and> int_lt k (cell I p)))
         \<and> adjacent p p' \<and> path_ok G I R C (k + 1) ps)"
      using c by simp
    have 3: "last (p # ps) = last ps" using ne by simp
    have 4: "k + int (length (p # ps)) = k + 1 + int (length ps)" by simp
    show ?thesis unfolding 1 2 3 4 Cons.IH [OF ne, of "k + 1"] by blast
  qed
qed

lemma reach_path:
  assumes s: "inb R C (0, 0)"
  shows "reach G I R C p k \<Longrightarrow>
     \<exists>ps. ps \<noteq> [] \<and> hd ps = (0, 0) \<and> last ps = p \<and> path_ok G I R C 0 ps \<and> moves ps = k"
proof (induction rule: reach.induct)
  case start
  have "path_ok G I R C 0 [(0, 0)]" using s by simp
  then show ?case by (intro exI [of _ "[(0, 0)]"]) (simp add: moves_def)
next
  case (step p k u)
  then obtain ps where ps: "ps \<noteq> []" "hd ps = (0, 0)" "last ps = p" "path_ok G I R C 0 ps"
    "moves ps = k"
    by blast
  from ps(5) have k: "int (length ps) = k + 1" by (simp add: moves_def)
  from step.hyps(3) have "inb R C u" "cell G u \<noteq> CHR ''#''" "int_lt (k + 1) (cell I u)"
    by (simp_all add: enterable_def)
  with ps step.hyps(2) k have "path_ok G I R C 0 (ps @ [u])"
    by (simp add: path_ok_snoc)
  moreover have "moves (ps @ [u]) = k + 1" using k by (simp add: moves_def)
  ultimately show ?case using ps by (intro exI [of _ "ps @ [u]"]) simp
qed

lemma path_reach:
  "ps \<noteq> [] \<Longrightarrow> hd ps = (0, 0) \<Longrightarrow> path_ok G I R C 0 ps \<Longrightarrow>
     \<exists>k. k \<le> moves ps \<and> reach G I R C (last ps) k"
proof (induction ps rule: rev_nonempty_induct)
  case (single p)
  then have "reach G I R C (last [p]) 0" by (simp add: reach.start)
  then show ?case by (intro exI [of _ 0]) (simp add: moves_def)
next
  case (snoc u ps)
  from snoc.prems snoc.hyps(1) have h: "hd ps = (0, 0)" by simp
  from snoc.prems(2) snoc.hyps(1)
  have ok: "path_ok G I R C 0 ps" and a: "adjacent (last ps) u" and i: "inb R C u"
    and f: "u = (0, 0) \<or> (cell G u \<noteq> CHR ''#'' \<and> int_lt (int (length ps)) (cell I u))"
    by (simp_all add: path_ok_snoc)
  from snoc.IH [OF h ok] obtain k where k: "k \<le> moves ps" and r: "reach G I R C (last ps) k"
    by blast
  show ?case
  proof (cases "u = (0, 0)")
    case True
    have "reach G I R C (last (ps @ [u])) 0" using True by (simp add: reach.start)
    then show ?thesis by (intro exI [of _ 0]) (simp add: moves_def)
  next
    case False
    with f have w: "cell G u \<noteq> CHR ''#''" and "int_lt (int (length ps)) (cell I u)"
      by simp_all
    moreover from k have "k + 1 \<le> int (length ps)" by (simp add: moves_def)
    ultimately have "enterable G I R C u (k + 1)"
      using i by (auto simp: enterable_def intro: int_lt_mono)
    from reach.step [OF r a this] have "reach G I R C (last (ps @ [u])) (k + 1)" by simp
    moreover have "k + 1 \<le> moves (ps @ [u])" using k by (simp add: moves_def)
    ultimately show ?thesis by blast
  qed
qed

lemma find_shortest_paths:
  assumes d: "dims G = Inr (R, C)" and G: "rect G R C" and I: "rect I R C" and C: "1 \<le> C"
  shows "\<exists>res. find_shortest_safe_steps G I = Inr res
     \<and> (res = None \<longleftrightarrow> \<not> (\<exists>ps. safe_path G I R C ps))
     \<and> (\<forall>n. res = Some n \<longrightarrow>
           (\<exists>ps. safe_path G I R C ps \<and> moves ps = n)
           \<and> (\<forall>ps. safe_path G I R C ps \<longrightarrow> n \<le> moves ps))"
proof -
  from d have R: "1 \<le> R" by (cases G) (auto simp: dims_def)
  have s: "inb R C (0, 0)" using R C by (simp add: inb_def)
  let ?x = "(0, int C - 1)"
  note post = find_shortest_reach [OF d G I C]
  have to_reach: "\<exists>k. k \<le> moves ps \<and> reach G I R C ?x k" if "safe_path G I R C ps" for ps
    using that path_reach [of ps G I R C] by (auto simp: safe_path_def)
  have to_path: "\<exists>ps. safe_path G I R C ps \<and> moves ps = k" if "reach G I R C ?x k" for k
    using reach_path [OF s that] by (auto simp: safe_path_def)
  show ?thesis
  proof (cases "find_shortest_safe_steps G I")
    case (Inl e)
    with post show ?thesis by (simp add: bfs_post_def)
  next
    case (Inr res)
    show ?thesis
    proof (cases res)
      case None
      with Inr post have "\<forall>k. \<not> reach G I R C ?x k" by (simp add: bfs_post_def)
      with to_reach have "\<not> (\<exists>ps. safe_path G I R C ps)" by blast
      with Inr None show ?thesis by simp
    next
      case (Some n)
      with Inr post have r: "reach G I R C ?x n"
        and o: "\<And>k. reach G I R C ?x k \<Longrightarrow> n \<le> k"
        by (simp_all add: bfs_post_def)
      from to_path [OF r] have e: "\<exists>ps. safe_path G I R C ps \<and> moves ps = n" .
      have "n \<le> moves ps" if "safe_path G I R C ps" for ps
      proof -
        from to_reach [OF that] obtain k where "k \<le> moves ps" "reach G I R C ?x k" by blast
        with o [of k] show ?thesis by simp
      qed
      with e Inr Some show ?thesis by auto
    qed
  qed
qed

text \<open>
  Claim C2. For every rectangular grid with at least one column and every freeze-time
  matrix of the same shape, the search returns without error; it returns \<open>None\<close> exactly
  when no safe path exists, and when it returns a number, that number is the number of
  moves of some safe path and no safe path has fewer moves. So the result is the minimum
  number of moves over all 4-connected paths from (0,0) to (0,C-1) whose cells after the
  start are not walls and are entered strictly before their freeze times.
\<close>

theorem shortest_safe_steps_minimal:
  assumes "dims G = Inr (R, C)" and "rect G R C" and "rect I R C" and "1 \<le> C"
  shows "\<exists>res. find_shortest_safe_steps G I = Inr res
     \<and> (res = None \<longleftrightarrow> \<not> (\<exists>ps. safe_path G I R C ps))
     \<and> (\<forall>n. res = Some n \<longrightarrow>
           (\<exists>ps. safe_path G I R C ps \<and> moves ps = n)
           \<and> (\<forall>ps. safe_path G I R C ps \<longrightarrow> n \<le> moves ps))"
  using assms by (rule find_shortest_paths)

text \<open>
  A 2 by 3 grid with a wall between start and exit. With freeze time 5 at the exit the
  detour of 4 moves is safe and minimal; with freeze time 4 the exit freezes as the player
  arrives, and no safe path exists.
\<close>

theorem shortest_safe_steps_minimal_witness:
  "find_shortest_safe_steps [''.#.'', ''...''] [[PInf, PInf, PInt 5], [PInt 5, PInf, PInf]]
     = Inr (Some 4)
   \<and> safe_path [''.#.'', ''...''] [[PInf, PInf, PInt 5], [PInt 5, PInf, PInf]] 2 3
        [(0, 0), (1, 0), (1, 1), (1, 2), (0, 2)]
   \<and> \<not> (\<exists>ps. safe_path [''.#.'', ''...''] [[PInf, PInf, PInt 5], [PInt 5, PInf, PInf]] 2 3 ps
            \<and> moves ps < 4)
   \<and> find_shortest_safe_steps [''.#.'', ''...''] [[PInf, PInf, PInt 4], [PInt 5, PInf, PInf]]
     = Inr None
   \<and> \<not> (\<exists>ps. safe_path [''.#.'', ''...''] [[PInf, PInf, PInt 4], [PInt 5, PInf, PInf]] 2 3 ps)"
proof -
  let ?G = "[''.#.'', ''...'']"
  let ?I = "[[PInf, PInf, PInt 5], [PInt 5, PInf, PInf]]"
  let ?J = "[[PInf, PInf, PInt 4], [PInt 5, PInf, PInf]]"
  have h: "dims ?G = Inr (2, 3)" "rect ?G 2 3" "rect ?I 2 3" "rect ?J 2 3" "(1 :: nat) \<le> 3"
    by (simp_all add: dims_def rect_def)
  have e: "find_shortest_safe_steps ?G ?I = Inr (Some 4)" by code_simp
  have f: "find_shortest_safe_steps ?G ?J = Inr None" by code_simp
  have p: "safe_path ?G ?I 2 3 [(0, 0), (1, 0), (1, 1), (1, 2), (0, 2)]" by code_simp
  from shortest_safe_steps_minimal [OF h(1) h(2) h(3) h(5)] e
  have 1: "\<not> (\<exists>ps. safe_path ?G ?I 2 3 ps \<and> moves ps < 4)" by fastforce
  from shortest_safe_steps_minimal [OF h(1) h(2) h(4) h(5)] f
  have 2: "\<not> (\<exists>ps. safe_path ?G ?J 2 3 ps)" by auto
  from e f p 1 2 show ?thesis by blast
qed

section \<open>Termination of the calibration\<close>

text \<open>
  A walk from a cell through cells that are inside the grid, not walls and not seeds,
  whatever the freeze times; an open path is such a walk from the start to the exit.
\<close>

fun open_walk :: "grid \<Rightarrow> nat \<Rightarrow> nat \<Rightarrow> int \<times> int \<Rightarrow> (int \<times> int) list \<Rightarrow> bool" where
  "open_walk G R C p [] = True"
| "open_walk G R C p (u # us) =
     (adjacent p u \<and> inb R C u \<and> cell G u \<noteq> CHR ''#'' \<and> cell G u \<noteq> CHR ''I''
      \<and> open_walk G R C u us)"

definition open_path :: "grid \<Rightarrow> nat \<Rightarrow> nat \<Rightarrow> (int \<times> int) list \<Rightarrow> bool" where
  "open_path G R C us = (open_walk G R C (0, 0) us \<and> last ((0, 0) # us) = (0, int C - 1))"

lemma open_walk_reach:
  assumes inv: "spread_inv G i R C I []"
  shows "open_walk G R C p us \<Longrightarrow> reach G I R C p k \<Longrightarrow> k + int (length us) < i \<Longrightarrow>
     reach G I R C (last (p # us)) (k + int (length us))"
proof (induction us arbitrary: p k)
  case Nil
  then show ?case by simp
next
  case (Cons u us)
  from Cons.prems(1) have a: "adjacent p u" and b: "inb R C u" and w: "cell G u \<noteq> CHR ''#''"
    and s: "cell G u \<noteq> CHR ''I''" and rest: "open_walk G R C u us"
    by simp_all
  from inv b have "cell_ok G i R C I u" unfolding spread_inv_def by blast
  with s Cons.prems(3) have "int_lt (k + 1) (cell I u)"
    by (cases "cell I u") (auto simp: cell_ok_def)
  with b w have "enterable G I R C u (k + 1)" by (simp add: enterable_def)
  from reach.step [OF Cons.prems(2) a this] have r: "reach G I R C u (k + 1)" .
  from Cons.prems(3) have "k + 1 + int (length us) < i" by simp
  from Cons.IH [OF rest r this] show ?case by (simp add: add.assoc)
qed

lemma balance_loop_terminates:
  assumes d: "dims G = Inr (R, C)" and G: "rect G R C" and C: "1 \<le> C"
    and p: "open_path G R C us" and m: "int (length us) < max_steps"
  shows "1 \<le> interval \<Longrightarrow>
     \<exists>I i g'. balance_loop G max_steps interval g = Some (Inr ((I, i), g'))
        \<and> interval \<le> i \<and> i \<le> max interval (int (length us) + 1)"
proof (induction "nat (int (length us) + 1 - interval)" arbitrary: interval g rule: less_induct)
  case less
  from compute_ice_times_inv [OF less.prems d G, of g]
  obtain I g1 where c: "compute_ice_times G interval g = Some (Inr (I, g1))"
    and inv: "spread_inv G interval R C I []"
    by blast
  from inv have I: "rect I R C" by (simp add: spread_inv_def)
  note post = find_shortest_reach [OF d G I C]
  show ?case
  proof (cases "\<exists>n. find_shortest_safe_steps G I = Inr (Some n) \<and> n < max_steps")
    case True
    then obtain n where "find_shortest_safe_steps G I = Inr (Some n)" "n < max_steps" by blast
    with c have "balance_loop G max_steps interval g = Some (Inr ((I, interval), g1))"
      by (subst balance_loop.simps) simp
    then show ?thesis by auto
  next
    case False
    have small: "interval \<le> int (length us)"
    proof (rule ccontr)
      assume "\<not> interval \<le> int (length us)"
      then have "0 + int (length us) < interval" by simp
      from open_walk_reach [OF inv _ reach.start this] p
      have r: "reach G I R C (0, int C - 1) (int (length us))" by (simp add: open_path_def)
      from post obtain n where n: "find_shortest_safe_steps G I = Inr (Some n)"
        and o: "\<And>k. reach G I R C (0, int C - 1) k \<Longrightarrow> n \<le> k"
        using r by (auto simp: bfs_post_def split: sum.splits option.splits)
      from o [OF r] m have "n < max_steps" by simp
      with n False show False by blast
    qed
    from post obtain res where res: "find_shortest_safe_steps G I = Inr res"
      by (auto simp: bfs_post_def split: sum.splits)
    with False have "res = None \<or> (\<exists>n. res = Some n \<and> \<not> n < max_steps)"
      by (cases res) auto
    with c res have unfold: "balance_loop G max_steps interval g
        = balance_loop G max_steps (interval + 1) g1"
      by (subst balance_loop.simps) auto
    have "nat (int (length us) + 1 - (interval + 1)) < nat (int (length us) + 1 - interval)"
      using small by simp
    moreover have "1 \<le> interval + 1" using less.prems by simp
    ultimately obtain I' i g' where
      "balance_loop G max_steps (interval + 1) g1 = Some (Inr ((I', i), g'))"
      and "interval + 1 \<le> i" and "i \<le> max (interval + 1) (int (length us) + 1)"
      using less.hyps [of "interval + 1" g1] by blast
    with unfold small show ?thesis by auto
  qed
qed

text \<open>
  Claim C8 (as amended). For a rectangular grid with at least one column that has an open
  path from the start to the exit with fewer moves than the step budget, the calibration
  returns for every sequence of random draws, with an interval between 2 and the number
  of moves of the path plus one.
\<close>

theorem calibration_terminates:
  assumes "dims G = Inr (R, C)" and "rect G R C" and "1 \<le> C"
    and "open_path G R C us" and "int (length us) < max_steps"
  shows "\<exists>I i g'. generate_balanced_ice G max_steps g = Some (Inr ((I, i), g'))
     \<and> 2 \<le> i \<and> i \<le> max 2 (int (length us) + 1)"
  unfolding generate_balanced_ice_def
  using balance_loop_terminates [OF assms, of 2 g] by simp

text \<open>
  The layout generated from the draws 0, 1, 2, ... has an open path of 11 moves; with the
  default budget 15 the calibration returns with an interval of at most 12.
\<close>

theorem calibration_terminates_witness:
  "open_path (fst (generate_grid (\<lambda>n. n))) 10 10
      [(0, 1), (0, 2), (0, 3), (0, 4), (0, 5), (0, 6), (0, 7), (1, 7), (1, 8), (1, 9), (0, 9)]
   \<and> (\<exists>I i g'. generate_balanced_ice (fst (generate_grid (\<lambda>n. n))) 15 (\<lambda>n. n)
          = Some (Inr ((I, i), g'))
        \<and> 2 \<le> i \<and> i \<le> 12)"
proof -
  let ?G = "fst (generate_grid (\<lambda>n. n))"
  let ?us = "[(0, 1), (0, 2), (0, 3), (0, 4), (0, 5), (0, 6), (0, 7), (1, 7), (1, 8), (1, 9), (0, 9)]
    :: (int \<times> int) list"
  have d: "dims ?G = Inr (10, 10)" by code_simp
  have r: "rect ?G 10 10" by code_simp
  have p: "open_path ?G 10 10 ?us" by code_simp
  have l: "int (length ?us) < 15" by simp
  from calibration_terminates [OF d r _ p l, of "\<lambda>n. n"] p show ?thesis by simp
qed

text \<open>A single row of 16 open cells: the exit is 15 moves from the start.\<close>

definition corridor :: grid where
  "corridor = [''................'']"

lemma corridor_ice:
  "compute_ice_times corridor i g = Some (Inr ([replicate 16 PInf], g))"
proof -
  have d: "dims corridor = Inr (Suc 0, 16)" by code_simp
  have s: "seed_scan corridor (cells (Suc 0) 16) ([replicate 16 PInf], [])
      = Inr ([replicate 16 PInf], [])" by code_simp
  show ?thesis
    by (simp add: compute_ice_times_def d s spread_loop.simps [of _ _ _ _ _ "[]"])
qed

lemma corridor_bfs: "find_shortest_safe_steps corridor [replicate 16 PInf] = Inr (Some 15)"
  by code_simp

lemma corridor_never_accepted: "balance_loop corridor 15 i g = None"
proof (cases "balance_loop corridor 15 i g")
  case None
  then show ?thesis .
next
  case (Some y)
  let ?P = "\<lambda>(G :: grid) (max_steps :: int) (interval :: int) (g :: rng)
      (y :: error + ((ice \<times> int) \<times> rng)). \<not> (G = corridor \<and> max_steps = 15)"
  have step: "?P G max_steps interval g y"
    if IH: "\<And>G max_steps interval g y. loop G max_steps interval g = Some y
        \<Longrightarrow> ?P G max_steps interval g y"
    and body: "(case compute_ice_times G interval g of
        None \<Rightarrow> None
      | Some (Inl e) \<Rightarrow> Some (Inl e)
      | Some (Inr (ice_time, g')) \<Rightarrow>
          (case find_shortest_safe_steps G ice_time of
             Inl e \<Rightarrow> Some (Inl e)
           | Inr shortest \<Rightarrow>
               (case shortest of
                  Some n \<Rightarrow>
                    if n < max_steps then Some (Inr ((ice_time, interval), g'))
                    else loop G max_steps (interval + 1) g'
                | None \<Rightarrow> loop G max_steps (interval + 1) g'))) = Some y"
    for loop :: "grid \<Rightarrow> int \<Rightarrow> int \<Rightarrow> rng \<Rightarrow> (error + ((ice \<times> int) \<times> rng)) option"
      and G max_steps interval g y
  proof
    assume a: "G = corridor \<and> max_steps = 15"
    with body have "loop corridor 15 (interval + 1) g = Some y"
      by (simp add: corridor_ice corridor_bfs)
    from IH [OF this] show False by simp
  qed
  have "?P corridor 15 i g y"
    by (rule balance_loop.raw_induct [where P = ?P, OF _ Some]) (rule step)
  then show ?thesis by simp
qed

text \<open>
  Claim C8 as stated, for every grid whose exit is reachable: on the corridor of 16 open
  cells the exit is reachable, but the shortest path has 15 moves, which is not below the
  default budget 15, so no interval is ever accepted and the calibration does not return.
\<close>

theorem budget_counterexample:
  "open_path [''................''] 1 16
      [(0, 1), (0, 2), (0, 3), (0, 4), (0, 5), (0, 6), (0, 7), (0, 8), (0, 9), (0, 10),
       (0, 11), (0, 12), (0, 13), (0, 14), (0, 15)]
   \<and> generate_balanced_ice [''................''] 15 (\<lambda>n. n) = None"
proof -
  have "open_path [''................''] 1 16
      [(0, 1), (0, 2), (0, 3), (0, 4), (0, 5), (0, 6), (0, 7), (0, 8), (0, 9), (0, 10),
       (0, 11), (0, 12), (0, 13), (0, 14), (0, 15)]"
    by code_simp
  moreover have "generate_balanced_ice [''................''] 15 (\<lambda>n. n) = None"
    using corridor_never_accepted [of 2 "\<lambda>n. n"]
    by (simp add: generate_balanced_ice_def corridor_def)
  ultimately show ?thesis by simp
qed

end
